theory Spec2Isabelle
  imports Main
begin

section \<open>Values, heap objects and the global state\<close>

text \<open>
  The reactivity core of the repository (\<^verbatim>\<open>src/core/observer/watcher.js\<close>,
  \<^verbatim>\<open>src/core/observer/index.js\<close>, \<^verbatim>\<open>src/core/observer/array.js\<close>,
  \<^verbatim>\<open>src/core/observer/scheduler.js\<close>, \<^verbatim>\<open>src/core/util/next-tick.js\<close> and the
  computed getter of \<^verbatim>\<open>src/core/instance/state.js\<close>) is embedded over one explicit
  state: JavaScript objects live in a heap indexed by references, Deps and Watchers are
  indexed by their ids, and the module-level variables of the scheduler and of nextTick
  are fields of the state.
\<close>

type_synonym ref = nat

type_synonym dep_id = nat

type_synonym wid = nat

datatype jsval = Undefined | Null | Boolean bool | Num int | NaN | Str string | Ref ref

text \<open>
  The outcome of a call: a value, a thrown exception, or \<open>Unfinished\<close> when the call is
  still running at the end of the budget it is followed for (a flush may go on forever);
  a caller of an unfinished call is unfinished too.
\<close>

datatype 'a res = Ok 'a | Threw jsval | Unfinished

text \<open>Strict equality \<^verbatim>\<open>===\<close>: NaN is not equal to itself, objects are equal by reference.\<close>

definition strict_eq :: "jsval \<Rightarrow> jsval \<Rightarrow> bool" where
  "strict_eq a b = (a = b \<and> a \<noteq> NaN)"

definition truthy :: "jsval \<Rightarrow> bool" where
  "truthy v = (case v of Undefined \<Rightarrow> False | Null \<Rightarrow> False | Boolean b \<Rightarrow> b
     | Num n \<Rightarrow> n \<noteq> 0 | NaN \<Rightarrow> False | Str s \<Rightarrow> s \<noteq> [] | Ref r \<Rightarrow> True)"

text \<open>
  The closure of one \<^verbatim>\<open>defineReactive\<close> call: its Dep, the captured \<^verbatim>\<open>val\<close>, the Dep
  of \<^verbatim>\<open>childOb\<close>, the pre-defined getter and setter of the property (user code: a
  getter either returns a value or throws; a setter stores into what the getter returns),
  \<^verbatim>\<open>customSetter\<close> and \<^verbatim>\<open>shallow\<close>.
\<close>

datatype accessor = Returns jsval | Throws jsval

record cell =
  c_dep :: dep_id
  c_val :: jsval
  c_childOb :: "dep_id option"
  c_getter :: "accessor option"
  c_setter :: bool
  c_customSetter :: bool
  c_shallow :: bool

datatype property =
    Data jsval bool
  | Accessor "accessor option" bool bool
  | Reactive cell

datatype okind = PlainObject | ArrayObject | OtherObject

record observer =
  ob_dep :: dep_id
  vmCount :: nat

record obj =
  o_kind :: okind
  o_props :: "(string \<times> property) list"
  o_elems :: "jsval list"
  o_ob :: "observer option"
  o_isVue :: bool
  o_isVNode :: bool
  o_extensible :: bool
  o_frozen :: bool
  o_inherited :: "string list"

text \<open>
  The function a Watcher evaluates is user code. It is given as an expression that reads
  properties and array elements of heap objects, so that every read goes through the
  property's accessor.
\<close>

datatype expr =
    Lit jsval
  | Field expr string
  | Elem expr nat
  | Plus expr expr
  | Cond expr expr expr
  | Throw jsval

record watcher =
  w_vm :: ref
  w_deep :: bool
  w_user :: bool
  w_lazy :: bool
  w_sync :: bool
  w_before :: bool
  w_dirty :: bool
  w_active :: bool
  w_deps :: "dep_id list"
  w_newDeps :: "dep_id list"
  w_depIds :: "dep_id set"
  w_newDepIds :: "dep_id set"
  w_expression :: string
  w_getter :: expr
  w_value :: jsval

record component =
  vm_watchers :: "wid list"
  vm_watcher :: "wid option"
  vm_computedWatchers :: "(string \<times> wid) list"
  vm_isBeingDestroyed :: bool
  vm_isMounted :: bool
  vm_isDestroyed :: bool

record scheduler =
  queue :: "wid list"
  has :: "wid set"
  circular :: "wid \<Rightarrow> nat"
  waiting :: bool
  flushing :: bool
  index :: nat
  activatedChildren :: "ref list"

datatype tick_cb = FlushSchedulerQueue | UserTick nat

record next_tick =
  callbacks :: "tick_cb list"
  pending :: bool
  microtasks :: nat

text \<open>What the run leaves behind, in order: the calls a claim counts.\<close>

datatype event =
    Notify dep_id
  | Depend dep_id
  | Update wid
  | Run wid
  | Getter wid
  | Before wid
  | Callback wid jsval jsval
  | HandleError jsval string
  | Warn string
  | Hook ref string
  | Tick nat

record state =
  heap :: "ref \<Rightarrow> obj"
  dep_uid :: nat
  subs :: "dep_id \<Rightarrow> wid list"
  target :: "wid option"
  targetStack :: "wid option list"
  uid :: nat
  watchers :: "wid \<Rightarrow> watcher"
  vms :: "ref \<Rightarrow> component"
  sched :: scheduler
  tick :: next_tick
  shouldObserve :: bool
  trace :: "event list"

text \<open>
  The build and the platform: \<^verbatim>\<open>process.env.NODE_ENV\<close>, \<^verbatim>\<open>config.async\<close>,
  \<^verbatim>\<open>isServerRendering()\<close>, the depth of the engine's call stack (a recursion deeper than
  that throws a RangeError), the number of iterations a flush is followed for, and the
  callbacks of the watchers (user code: any function of the state).
\<close>

record env =
  production :: bool
  async :: bool
  serverRendering :: bool
  stack_limit :: nat
  flush_budget :: nat
  cb :: "wid \<Rightarrow> jsval \<Rightarrow> jsval \<Rightarrow> state \<Rightarrow> unit res \<times> state"

definition RangeError :: jsval where
  "RangeError = Str ''RangeError: Maximum call stack size exceeded''"

definition TypeError :: jsval where
  "TypeError = Str ''TypeError''"

definition emit :: "event \<Rightarrow> state \<Rightarrow> state" where
  "emit e s = s\<lparr>trace := trace s @ [e]\<rparr>"

definition upd_watcher :: "wid \<Rightarrow> (watcher \<Rightarrow> watcher) \<Rightarrow> state \<Rightarrow> state" where
  "upd_watcher w f s = s\<lparr>watchers := (watchers s)(w := f (watchers s w))\<rparr>"

section \<open>Dep\<close>

text \<open>
  Modelled from the spec: \<^verbatim>\<open>src/core/observer/dep.js\<close> is not among the sources. The spec
  gives a Dep a monotonic id and a list of subscriber Watchers with add and remove;
  \<^verbatim>\<open>notify\<close> enumerates the current subscribers and invokes \<^verbatim>\<open>update()\<close> on each
  (defined below, after \<^verbatim>\<open>Watcher.update\<close>); the collecting Watcher is a process-wide
  slot backed by a stack, pushed on entry of an evaluation and popped on exit.
  \<^verbatim>\<open>remove(arr, item)\<close> of the shared utilities deletes the first occurrence.
\<close>

definition Dep_addSub :: "dep_id \<Rightarrow> wid \<Rightarrow> state \<Rightarrow> state" where
  "Dep_addSub d w s = s\<lparr>subs := (subs s)(d := subs s d @ [w])\<rparr>"

definition Dep_removeSub :: "dep_id \<Rightarrow> wid \<Rightarrow> state \<Rightarrow> state" where
  "Dep_removeSub d w s = s\<lparr>subs := (subs s)(d := remove1 w (subs s d))\<rparr>"

definition pushTarget :: "wid option \<Rightarrow> state \<Rightarrow> state" where
  "pushTarget t s = s\<lparr>targetStack := targetStack s @ [t], target := t\<rparr>"

definition popTarget :: "state \<Rightarrow> state" where
  "popTarget s =
     (let st = butlast (targetStack s)
      in s\<lparr>targetStack := st, target := (if st = [] then None else last st)\<rparr>)"

section \<open>Watcher: collecting dependencies\<close>

text \<open>\<^verbatim>\<open>Watcher.addDep\<close> (watcher.js, lines 151-162).\<close>

definition Watcher_addDep :: "wid \<Rightarrow> dep_id \<Rightarrow> state \<Rightarrow> state" where
  "Watcher_addDep w d s =
     (if d \<notin> w_newDepIds (watchers s w) then
        let s1 = upd_watcher w (\<lambda>W. W\<lparr>w_newDepIds := insert d (w_newDepIds W),
                                      w_newDeps := w_newDeps W @ [d]\<rparr>) s
        in if d \<notin> w_depIds (watchers s w) then Dep_addSub d w s1 else s1
      else s)"

text \<open>
  Modelled from the spec: \<^verbatim>\<open>Dep.depend\<close> registers the Dep with the collecting Watcher,
  if any. The trace records the call: these are the Deps read by an evaluation.
\<close>

definition Dep_depend :: "dep_id \<Rightarrow> state \<Rightarrow> state" where
  "Dep_depend d s0 =
     (let s = emit (Depend d) s0
      in case target s of None \<Rightarrow> s | Some w \<Rightarrow> Watcher_addDep w d s)"

text \<open>
  \<^verbatim>\<open>Watcher.cleanupDeps\<close> (lines 167-185): the loop runs from the last old Dep to the
  first, then the two generations are swapped and the new one is emptied.
\<close>

definition Watcher_cleanupDeps :: "wid \<Rightarrow> state \<Rightarrow> state" where
  "Watcher_cleanupDeps w s =
     (let W = watchers s w;
          s1 = fold (\<lambda>d t. if d \<notin> w_newDepIds W then Dep_removeSub d w t else t)
                    (rev (w_deps W)) s
      in upd_watcher w (\<lambda>V. V\<lparr>w_depIds := w_newDepIds W, w_newDepIds := {},
                                w_deps := w_newDeps W, w_newDeps := []\<rparr>) s1)"

section \<open>Reading reactive properties\<close>

text \<open>
  \<^verbatim>\<open>dependArray\<close> (observer/index.js, at lines 622-631 of the file): every element with
  an Observer registers its Dep, and an element that is an array is descended into. The
  first argument is the call depth left on the engine's stack.
\<close>

fun dependArray :: "nat \<Rightarrow> jsval list \<Rightarrow> state \<Rightarrow> unit res \<times> state" where
  "dependArray 0 es s = (Threw RangeError, s)"
| "dependArray (Suc d) [] s = (Ok (), s)"
| "dependArray (Suc d) (Ref r # es) s =
     (let s1 = (case o_ob (heap s r) of None \<Rightarrow> s | Some ob \<Rightarrow> Dep_depend (ob_dep ob) s)
      in if o_kind (heap s1 r) = ArrayObject then
           (case dependArray d (o_elems (heap s1 r)) s1 of
              (Threw x, s2) \<Rightarrow> (Threw x, s2)
            | (Unfinished, s2) \<Rightarrow> (Unfinished, s2)
            | (Ok u, s2) \<Rightarrow> dependArray (Suc d) es s2)
         else dependArray (Suc d) es s1)"
| "dependArray (Suc d) (e # es) s = dependArray (Suc d) es s"

definition call_getter :: "cell \<Rightarrow> jsval res" where
  "call_getter c = (case c_getter c of None \<Rightarrow> Ok (c_val c)
     | Some (Returns v) \<Rightarrow> Ok v | Some (Throws x) \<Rightarrow> Threw x)"

definition isArray :: "state \<Rightarrow> jsval \<Rightarrow> bool" where
  "isArray s v = (case v of Ref r \<Rightarrow> o_kind (heap s r) = ArrayObject | _ \<Rightarrow> False)"

definition elems_of :: "state \<Rightarrow> jsval \<Rightarrow> jsval list" where
  "elems_of s v = (case v of Ref r \<Rightarrow> o_elems (heap s r) | _ \<Rightarrow> [])"

text \<open>\<^verbatim>\<open>reactiveGetter\<close> (lines 467-481).\<close>

definition reactiveGetter :: "env \<Rightarrow> cell \<Rightarrow> state \<Rightarrow> jsval res \<times> state" where
  "reactiveGetter en c s =
     (case call_getter c of
        Threw x \<Rightarrow> (Threw x, s)
      | Unfinished \<Rightarrow> (Unfinished, s)
      | Ok v \<Rightarrow>
          if target s \<noteq> None then
            let s1 = Dep_depend (c_dep c) s
            in (case c_childOb c of
                  None \<Rightarrow> (Ok v, s1)
                | Some cd \<Rightarrow>
                    let s2 = Dep_depend cd s1
                    in if isArray s2 v then
                         (case dependArray (stack_limit en) (elems_of s2 v) s2 of
                            (Threw x, s3) \<Rightarrow> (Threw x, s3)
                          | (Unfinished, s3) \<Rightarrow> (Unfinished, s3)
                          | (Ok u, s3) \<Rightarrow> (Ok v, s3))
                       else (Ok v, s2))
          else (Ok v, s))"

text \<open>Reading \<^verbatim>\<open>obj[key]\<close>: the own property decides; a missing one reads as undefined.\<close>

definition prop_get :: "env \<Rightarrow> ref \<Rightarrow> string \<Rightarrow> state \<Rightarrow> jsval res \<times> state" where
  "prop_get en r k s =
     (case map_of (o_props (heap s r)) k of
        None \<Rightarrow> (Ok Undefined, s)
      | Some (Data v cf) \<Rightarrow> (Ok v, s)
      | Some (Accessor g st cf) \<Rightarrow>
          (case g of None \<Rightarrow> (Ok Undefined, s)
           | Some (Returns v) \<Rightarrow> (Ok v, s)
           | Some (Throws x) \<Rightarrow> (Threw x, s))
      | Some (Reactive c) \<Rightarrow> reactiveGetter en c s)"

definition js_plus :: "jsval \<Rightarrow> jsval \<Rightarrow> jsval" where
  "js_plus a b = (case (a, b) of (Num x, Num y) \<Rightarrow> Num (x + y) | _ \<Rightarrow> NaN)"

fun eval :: "env \<Rightarrow> expr \<Rightarrow> state \<Rightarrow> jsval res \<times> state" where
  "eval en (Lit v) s = (Ok v, s)"
| "eval en (Field e k) s =
     (case eval en e s of
        (Threw x, s1) \<Rightarrow> (Threw x, s1)
      | (Unfinished, s1) \<Rightarrow> (Unfinished, s1)
      | (Ok (Ref r), s1) \<Rightarrow> prop_get en r k s1
      | (Ok Undefined, s1) \<Rightarrow> (Threw TypeError, s1)
      | (Ok Null, s1) \<Rightarrow> (Threw TypeError, s1)
      | (Ok v, s1) \<Rightarrow> (Ok Undefined, s1))"
| "eval en (Elem e i) s =
     (case eval en e s of
        (Threw x, s1) \<Rightarrow> (Threw x, s1)
      | (Unfinished, s1) \<Rightarrow> (Unfinished, s1)
      | (Ok (Ref r), s1) \<Rightarrow>
          (if i < length (o_elems (heap s1 r)) then (Ok (o_elems (heap s1 r) ! i), s1)
           else (Ok Undefined, s1))
      | (Ok Undefined, s1) \<Rightarrow> (Threw TypeError, s1)
      | (Ok Null, s1) \<Rightarrow> (Threw TypeError, s1)
      | (Ok v, s1) \<Rightarrow> (Ok Undefined, s1))"
| "eval en (Plus a b) s =
     (case eval en a s of
        (Threw x, s1) \<Rightarrow> (Threw x, s1)
      | (Unfinished, s1) \<Rightarrow> (Unfinished, s1)
      | (Ok va, s1) \<Rightarrow>
          (case eval en b s1 of
             (Threw x, s2) \<Rightarrow> (Threw x, s2)
           | (Unfinished, s2) \<Rightarrow> (Unfinished, s2)
           | (Ok vb, s2) \<Rightarrow> (Ok (js_plus va vb), s2)))"
| "eval en (Cond c a b) s =
     (case eval en c s of
        (Threw x, s1) \<Rightarrow> (Threw x, s1)
      | (Unfinished, s1) \<Rightarrow> (Unfinished, s1)
      | (Ok vc, s1) \<Rightarrow> (if truthy vc then eval en a s1 else eval en b s1))"
| "eval en (Throw x) s = (Threw x, s)"

text \<open>
  Modelled from the spec: \<^verbatim>\<open>traverse\<close> (\<^verbatim>\<open>src/core/observer/traverse.js\<close>) is not among the
  sources. For a deep watcher it touches every property reachable from the value, so that
  each is tracked as a dependency: it reads every own property of an object through its
  accessor and every element of an array, and descends into what it reads. Frozen objects
  and virtual nodes are left alone.
\<close>

fun traverse :: "env \<Rightarrow> nat \<Rightarrow> jsval \<Rightarrow> state \<Rightarrow> unit res \<times> state"
and traverse_keys :: "env \<Rightarrow> nat \<Rightarrow> ref \<Rightarrow> string list \<Rightarrow> state \<Rightarrow> unit res \<times> state"
and traverse_elems :: "env \<Rightarrow> nat \<Rightarrow> jsval list \<Rightarrow> state \<Rightarrow> unit res \<times> state" where
  "traverse en 0 v s = (Threw RangeError, s)"
| "traverse en (Suc d) (Ref r) s =
     (if o_frozen (heap s r) \<or> o_isVNode (heap s r) then (Ok (), s)
      else if o_kind (heap s r) = ArrayObject then traverse_elems en d (o_elems (heap s r)) s
      else traverse_keys en d r (map fst (o_props (heap s r))) s)"
| "traverse en (Suc d) v s = (Ok (), s)"
| "traverse_keys en d r [] s = (Ok (), s)"
| "traverse_keys en d r (k # ks) s =
     (case prop_get en r k s of
        (Threw x, s1) \<Rightarrow> (Threw x, s1)
      | (Unfinished, s1) \<Rightarrow> (Unfinished, s1)
      | (Ok v, s1) \<Rightarrow>
          (case traverse en d v s1 of
             (Threw x, s2) \<Rightarrow> (Threw x, s2)
           | (Unfinished, s2) \<Rightarrow> (Unfinished, s2)
           | (Ok u, s2) \<Rightarrow> traverse_keys en d r ks s2))"
| "traverse_elems en d [] s = (Ok (), s)"
| "traverse_elems en d (e # es) s =
     (case traverse en d e s of
        (Threw x, s1) \<Rightarrow> (Threw x, s1)
      | (Unfinished, s1) \<Rightarrow> (Unfinished, s1)
      | (Ok u, s1) \<Rightarrow> traverse_elems en d es s1)"

text \<open>
  Modelled from the spec: \<^verbatim>\<open>handleError\<close> and \<^verbatim>\<open>warn\<close> (\<^verbatim>\<open>src/core/util\<close>) are not among
  the sources. The centralized handler receives the error with a context string and does
  not interrupt the caller; a warning is reported and execution continues.
\<close>

definition handleError :: "jsval \<Rightarrow> string \<Rightarrow> state \<Rightarrow> state" where
  "handleError x info s = emit (HandleError x info) s"

definition warn :: "string \<Rightarrow> state \<Rightarrow> state" where
  "warn msg s = emit (Warn msg) s"

text \<open>
  \<^verbatim>\<open>Watcher.get\<close> (watcher.js, lines 109-146). The \<^verbatim>\<open>finally\<close> block runs on every path;
  an exception thrown inside it (by \<^verbatim>\<open>traverse\<close>) leaves the block at once and replaces
  the pending one.
\<close>

definition Watcher_get :: "env \<Rightarrow> wid \<Rightarrow> state \<Rightarrow> jsval res \<times> state" where
  "Watcher_get en w s =
     (let s1 = emit (Getter w) (pushTarget (Some w) s);
          (r, s2) = eval en (w_getter (watchers s1 w)) s1
      in if r = Unfinished then (Unfinished, s2) else
         let (value, thrown, s3) =
            (case r of
               Ok v \<Rightarrow> (v, None, s2)
             | Threw x \<Rightarrow>
                 if w_user (watchers s2 w)
                 then (Undefined, None,
                       handleError x (''getter for watcher '' @ w_expression (watchers s2 w)) s2)
                 else (Undefined, Some x, s2));
          (t, s4) = (if w_deep (watchers s3 w) then traverse en (stack_limit en) value s3
                     else (Ok (), s3))
      in case t of
           Threw x \<Rightarrow> (Threw x, s4)
         | Unfinished \<Rightarrow> (Unfinished, s4)
         | Ok u \<Rightarrow>
             let s5 = Watcher_cleanupDeps w (popTarget s4)
             in (case thrown of Some x \<Rightarrow> (Threw x, s5) | None \<Rightarrow> (Ok value, s5)))"

section \<open>Watcher: run, and the scheduler\<close>

definition isObject :: "jsval \<Rightarrow> bool" where
  "isObject v = (case v of Ref r \<Rightarrow> True | _ \<Rightarrow> False)"

text \<open>
  Modelled from the spec: \<^verbatim>\<open>invokeWithErrorHandling\<close> (\<^verbatim>\<open>src/core/util/error.js\<close>) is not
  among the sources. It calls the handler; an error it throws is caught and reported
  through the centralized handler with the context string.
\<close>

definition invokeWithErrorHandling ::
  "env \<Rightarrow> wid \<Rightarrow> jsval \<Rightarrow> jsval \<Rightarrow> string \<Rightarrow> state \<Rightarrow> unit res \<times> state" where
  "invokeWithErrorHandling en w v old info s =
     (case cb en w v old s of
        (Threw x, s1) \<Rightarrow> (Ok (), handleError x info s1)
      | (r, s1) \<Rightarrow> (r, s1))"

text \<open>\<^verbatim>\<open>Watcher.run\<close> (watcher.js, lines 214-237).\<close>

definition Watcher_run :: "env \<Rightarrow> wid \<Rightarrow> state \<Rightarrow> unit res \<times> state" where
  "Watcher_run en w s0 =
     (let s = emit (Run w) s0
      in if w_active (watchers s w) then
           (case Watcher_get en w s of
              (Threw x, s1) \<Rightarrow> (Threw x, s1)
            | (Unfinished, s1) \<Rightarrow> (Unfinished, s1)
            | (Ok value, s1) \<Rightarrow>
                if \<not> strict_eq value (w_value (watchers s1 w)) \<or> isObject value
                   \<or> w_deep (watchers s1 w)
                then
                  let oldValue = w_value (watchers s1 w);
                      s2 = emit (Callback w value oldValue)
                             (upd_watcher w (\<lambda>W. W\<lparr>w_value := value\<rparr>) s1)
                  in if w_user (watchers s2 w)
                     then invokeWithErrorHandling en w value oldValue
                            (''callback for watcher '' @ w_expression (watchers s2 w)) s2
                     else cb en w value oldValue s2
                else (Ok (), s1))
         else (Ok (), s))"

definition MAX_UPDATE_COUNT :: nat where
  "MAX_UPDATE_COUNT = 100"

definition upd_sched :: "(scheduler \<Rightarrow> scheduler) \<Rightarrow> state \<Rightarrow> state" where
  "upd_sched f s = s\<lparr>sched := f (sched s)\<rparr>"

definition upd_tick :: "(next_tick \<Rightarrow> next_tick) \<Rightarrow> state \<Rightarrow> state" where
  "upd_tick f s = s\<lparr>tick := f (tick s)\<rparr>"

text \<open>\<^verbatim>\<open>resetSchedulerState\<close> (scheduler.js, at lines 619-626 of the file).\<close>

definition resetSchedulerState :: "env \<Rightarrow> state \<Rightarrow> state" where
  "resetSchedulerState en s =
     upd_sched (\<lambda>q. q\<lparr>index := 0, queue := [], activatedChildren := [], has := {},
                       circular := (if production en then circular q else (\<lambda>i. 0)),
                       waiting := False, flushing := False\<rparr>) s"

definition loop_warning :: "state \<Rightarrow> wid \<Rightarrow> string" where
  "loop_warning s w =
     ''You may have an infinite update loop '' @
       (if w_user (watchers s w)
        then ''in watcher with expression '' @ w_expression (watchers s w)
        else ''in a component render function.'')"

text \<open>
  The \<^verbatim>\<open>for\<close> loop of \<^verbatim>\<open>flushSchedulerQueue\<close> (lines 688-717), from the current
  \<^verbatim>\<open>index\<close>. The first argument is the number of iterations the loop is followed for.
  A \<^verbatim>\<open>break\<close> ends the loop like its condition does.
\<close>

fun flush_loop :: "env \<Rightarrow> nat \<Rightarrow> state \<Rightarrow> unit res \<times> state" where
  "flush_loop en 0 s =
     (if index (sched s) < length (queue (sched s)) then (Unfinished, s) else (Ok (), s))"
| "flush_loop en (Suc n) s =
     (if index (sched s) < length (queue (sched s)) then
        let w = queue (sched s) ! index (sched s);
            s1 = (if w_before (watchers s w) then emit (Before w) s else s);
            s2 = upd_sched (\<lambda>q. q\<lparr>has := has q - {w}\<rparr>) s1
        in (case Watcher_run en w s2 of
              (Threw x, s3) \<Rightarrow> (Threw x, s3)
            | (Unfinished, s3) \<Rightarrow> (Unfinished, s3)
            | (Ok u, s3) \<Rightarrow>
                if \<not> production en \<and> w \<in> has (sched s3) then
                  let s4 = upd_sched (\<lambda>q. q\<lparr>circular := (circular q)(w := circular q w + 1)\<rparr>) s3
                  in if circular (sched s4) w > MAX_UPDATE_COUNT
                     then (Ok (), warn (loop_warning s4 w) s4)
                     else flush_loop en n (upd_sched (\<lambda>q. q\<lparr>index := index q + 1\<rparr>) s4)
                else flush_loop en n (upd_sched (\<lambda>q. q\<lparr>index := index q + 1\<rparr>) s3))
      else (Ok (), s))"

text \<open>
  \<^verbatim>\<open>callUpdatedHooks\<close> (lines 740-749) and \<^verbatim>\<open>callActivatedHooks\<close> (lines 762-767). The
  lifecycle module is not among the sources: calling a hook is recorded in the trace.
\<close>

definition callUpdatedHooks :: "wid list \<Rightarrow> state \<Rightarrow> state" where
  "callUpdatedHooks q s =
     fold (\<lambda>w t. let v = w_vm (watchers t w)
                  in if vm_watcher (vms t v) = Some w \<and> vm_isMounted (vms t v)
                        \<and> \<not> vm_isDestroyed (vms t v)
                     then emit (Hook v ''updated'') t else t)
          (rev q) s"

definition callActivatedHooks :: "ref list \<Rightarrow> state \<Rightarrow> state" where
  "callActivatedHooks q s = fold (\<lambda>v t. emit (Hook v ''activated'') t) q s"

text \<open>\<^verbatim>\<open>flushSchedulerQueue\<close> (lines 662-735).\<close>

definition flushSchedulerQueue :: "env \<Rightarrow> state \<Rightarrow> unit res \<times> state" where
  "flushSchedulerQueue en s =
     (let s1 = upd_sched (\<lambda>q. q\<lparr>flushing := True\<rparr>) s;
          s2 = upd_sched (\<lambda>q. q\<lparr>queue := sort (queue q)\<rparr>) s1
      in case flush_loop en (flush_budget en) (upd_sched (\<lambda>q. q\<lparr>index := 0\<rparr>) s2) of
           (Threw x, s3) \<Rightarrow> (Threw x, s3)
         | (Unfinished, s3) \<Rightarrow> (Unfinished, s3)
         | (Ok u, s3) \<Rightarrow>
             let activatedQueue = activatedChildren (sched s3);
                 updatedQueue = queue (sched s3);
                 s4 = resetSchedulerState en s3;
                 s5 = callActivatedHooks activatedQueue s4
             in (Ok (), callUpdatedHooks updatedQueue s5))"

text \<open>
  \<^verbatim>\<open>nextTick\<close> (next-tick.js, lines 105-135). \<^verbatim>\<open>timerFunc\<close> hands \<^verbatim>\<open>flushCallbacks\<close> to
  the platform, which runs it after the current synchronous turn.
\<close>

definition timerFunc :: "state \<Rightarrow> state" where
  "timerFunc s = upd_tick (\<lambda>t. t\<lparr>microtasks := microtasks t + 1\<rparr>) s"

definition nextTick :: "tick_cb \<Rightarrow> state \<Rightarrow> state" where
  "nextTick c s =
     (let s1 = upd_tick (\<lambda>t. t\<lparr>callbacks := callbacks t @ [c]\<rparr>) s
      in if \<not> pending (tick s1) then timerFunc (upd_tick (\<lambda>t. t\<lparr>pending := True\<rparr>) s1)
         else s1)"

text \<open>
  \<^verbatim>\<open>flushCallbacks\<close> (lines 23-30): each queued callback runs inside the \<^verbatim>\<open>try\<close> of the
  wrapper \<^verbatim>\<open>nextTick\<close> pushed, so an error it throws is reported and the next one runs.
\<close>

fun run_callbacks :: "env \<Rightarrow> tick_cb list \<Rightarrow> state \<Rightarrow> unit res \<times> state" where
  "run_callbacks en [] s = (Ok (), s)"
| "run_callbacks en (FlushSchedulerQueue # cs) s =
     (case flushSchedulerQueue en s of
        (Threw x, s1) \<Rightarrow> run_callbacks en cs (handleError x ''nextTick'' s1)
      | (Unfinished, s1) \<Rightarrow> (Unfinished, s1)
      | (Ok u, s1) \<Rightarrow> run_callbacks en cs s1)"
| "run_callbacks en (UserTick n # cs) s = run_callbacks en cs (emit (Tick n) s)"

definition flushCallbacks :: "env \<Rightarrow> state \<Rightarrow> unit res \<times> state" where
  "flushCallbacks en s =
     (let copies = callbacks (tick s)
      in run_callbacks en copies (upd_tick (\<lambda>t. t\<lparr>pending := False, callbacks := []\<rparr>) s))"

text \<open>The platform at the end of the synchronous turn: one scheduled microtask runs.\<close>

definition microtask :: "env \<Rightarrow> state \<Rightarrow> unit res \<times> state" where
  "microtask en s =
     (if microtasks (tick s) = 0 then (Ok (), s)
      else flushCallbacks en (upd_tick (\<lambda>t. t\<lparr>microtasks := microtasks t - 1\<rparr>) s))"

text \<open>
  \<^verbatim>\<open>queueWatcher\<close> (scheduler.js, at lines 784-835 of the file). \<open>insert_pos\<close> is the
  \<^verbatim>\<open>while\<close> loop that looks for the place of the watcher in a queue being flushed: its
  last argument is \<^verbatim>\<open>i + 1\<close>.
\<close>

fun insert_pos :: "nat \<Rightarrow> wid list \<Rightarrow> wid \<Rightarrow> nat \<Rightarrow> nat" where
  "insert_pos idx q w 0 = 0"
| "insert_pos idx q w (Suc i) =
     (if i > idx \<and> q ! i > w then insert_pos idx q w i else Suc i)"

definition queueWatcher :: "env \<Rightarrow> wid \<Rightarrow> state \<Rightarrow> unit res \<times> state" where
  "queueWatcher en w s =
     (if w \<notin> has (sched s) then
        let s1 = upd_sched (\<lambda>q. q\<lparr>has := insert w (has q)\<rparr>) s;
            s2 = (if \<not> flushing (sched s1)
                  then upd_sched (\<lambda>q. q\<lparr>queue := queue q @ [w]\<rparr>) s1
                  else let p = insert_pos (index (sched s1)) (queue (sched s1)) w
                                 (length (queue (sched s1)))
                       in upd_sched (\<lambda>q. q\<lparr>queue := take p (queue q) @ [w] @ drop p (queue q)\<rparr>) s1)
        in if \<not> waiting (sched s2) then
             let s3 = upd_sched (\<lambda>q. q\<lparr>waiting := True\<rparr>) s2
             in if \<not> production en \<and> \<not> async en then flushSchedulerQueue en s3
                else (Ok (), nextTick FlushSchedulerQueue s3)
           else (Ok (), s2)
      else (Ok (), s))"

section \<open>Watcher: update, evaluate, depend, teardown, constructor\<close>

text \<open>\<^verbatim>\<open>Watcher.update\<close> (watcher.js, lines 192-208).\<close>

definition Watcher_update :: "env \<Rightarrow> wid \<Rightarrow> state \<Rightarrow> unit res \<times> state" where
  "Watcher_update en w s0 =
     (let s = emit (Update w) s0
      in if w_lazy (watchers s w) then (Ok (), upd_watcher w (\<lambda>W. W\<lparr>w_dirty := True\<rparr>) s)
         else if w_sync (watchers s w) then Watcher_run en w s
         else queueWatcher en w s)"

text \<open>
  Modelled from the spec: \<^verbatim>\<open>Dep.notify\<close> enumerates the subscribers present when it is
  called and invokes \<^verbatim>\<open>update()\<close> on each, synchronously.
\<close>

fun update_all :: "env \<Rightarrow> wid list \<Rightarrow> state \<Rightarrow> unit res \<times> state" where
  "update_all en [] s = (Ok (), s)"
| "update_all en (w # ws) s =
     (case Watcher_update en w s of
        (Threw x, s1) \<Rightarrow> (Threw x, s1)
      | (Unfinished, s1) \<Rightarrow> (Unfinished, s1)
      | (Ok u, s1) \<Rightarrow> update_all en ws s1)"

definition Dep_notify :: "env \<Rightarrow> dep_id \<Rightarrow> state \<Rightarrow> unit res \<times> state" where
  "Dep_notify en d s = update_all en (subs s d) (emit (Notify d) s)"

text \<open>\<^verbatim>\<open>Watcher.evaluate\<close> (lines 250-253) and \<^verbatim>\<open>Watcher.depend\<close> (lines 258-264).\<close>

definition Watcher_evaluate :: "env \<Rightarrow> wid \<Rightarrow> state \<Rightarrow> unit res \<times> state" where
  "Watcher_evaluate en w s =
     (case Watcher_get en w s of
        (Threw x, s1) \<Rightarrow> (Threw x, s1)
      | (Unfinished, s1) \<Rightarrow> (Unfinished, s1)
      | (Ok v, s1) \<Rightarrow> (Ok (), upd_watcher w (\<lambda>W. W\<lparr>w_value := v, w_dirty := False\<rparr>) s1))"

definition Watcher_depend :: "wid \<Rightarrow> state \<Rightarrow> state" where
  "Watcher_depend w s = fold Dep_depend (rev (w_deps (watchers s w))) s"

text \<open>\<^verbatim>\<open>Watcher.teardown\<close> (lines 269-283).\<close>

definition upd_vm :: "ref \<Rightarrow> (component \<Rightarrow> component) \<Rightarrow> state \<Rightarrow> state" where
  "upd_vm v f s = s\<lparr>vms := (vms s)(v := f (vms s v))\<rparr>"

definition Watcher_teardown :: "wid \<Rightarrow> state \<Rightarrow> state" where
  "Watcher_teardown w s =
     (if w_active (watchers s w) then
        let v = w_vm (watchers s w);
            s1 = (if \<not> vm_isBeingDestroyed (vms s v)
                  then upd_vm v (\<lambda>c. c\<lparr>vm_watchers := remove1 w (vm_watchers c)\<rparr>) s
                  else s);
            s2 = fold (\<lambda>d t. Dep_removeSub d w t) (rev (w_deps (watchers s1 w))) s1
        in upd_watcher w (\<lambda>W. W\<lparr>w_active := False\<rparr>) s2
      else s)"

text \<open>\<^verbatim>\<open>computedGetter\<close> of \<^verbatim>\<open>createComputedGetter\<close> (instance/state.js, lines 285-309).\<close>

definition computedGetter :: "env \<Rightarrow> ref \<Rightarrow> string \<Rightarrow> state \<Rightarrow> jsval res \<times> state" where
  "computedGetter en v key s =
     (case map_of (vm_computedWatchers (vms s v)) key of
        None \<Rightarrow> (Ok Undefined, s)
      | Some w \<Rightarrow>
          (case (if w_dirty (watchers s w) then Watcher_evaluate en w s else (Ok (), s)) of
             (Threw x, s1) \<Rightarrow> (Threw x, s1)
           | (Unfinished, s1) \<Rightarrow> (Unfinished, s1)
           | (Ok u, s1) \<Rightarrow>
               let s2 = (if target s1 \<noteq> None then Watcher_depend w s1 else s1)
               in (Ok (w_value (watchers s2 w)), s2)))"

text \<open>
  The constructor (watcher.js, lines 46-101); the evaluation source is a function, whose
  text is \<open>src\<close>. The new Watcher is found under its id, \<^verbatim>\<open>++uid\<close>.
\<close>

record options =
  opt_deep :: bool
  opt_user :: bool
  opt_lazy :: bool
  opt_sync :: bool
  opt_before :: bool

definition Watcher_new ::
  "env \<Rightarrow> ref \<Rightarrow> expr \<Rightarrow> string \<Rightarrow> options option \<Rightarrow> bool \<Rightarrow> state \<Rightarrow> wid res \<times> state" where
  "Watcher_new en v fn src opts isRenderWatcher s =
     (let w = uid s + 1;
          s1 = (if isRenderWatcher then upd_vm v (\<lambda>c. c\<lparr>vm_watcher := Some w\<rparr>) s else s);
          s2 = upd_vm v (\<lambda>c. c\<lparr>vm_watchers := vm_watchers c @ [w]\<rparr>) s1;
          lazy = (case opts of None \<Rightarrow> False | Some opt \<Rightarrow> opt_lazy opt);
          W = \<lparr>w_vm = v,
               w_deep = (case opts of None \<Rightarrow> False | Some opt \<Rightarrow> opt_deep opt),
               w_user = (case opts of None \<Rightarrow> False | Some opt \<Rightarrow> opt_user opt),
               w_lazy = lazy,
               w_sync = (case opts of None \<Rightarrow> False | Some opt \<Rightarrow> opt_sync opt),
               w_before = (case opts of None \<Rightarrow> False | Some opt \<Rightarrow> opt_before opt),
               w_dirty = lazy, w_active = True, w_deps = [], w_newDeps = [],
               w_depIds = {}, w_newDepIds = {},
               w_expression = (if production en then [] else src), w_getter = fn,
               w_value = Undefined\<rparr>;
          s3 = s2\<lparr>uid := w, watchers := (watchers s2)(w := W)\<rparr>
      in if lazy then (Ok w, s3)
         else (case Watcher_get en w s3 of
                 (Threw x, s4) \<Rightarrow> (Threw x, s4)
               | (Unfinished, s4) \<Rightarrow> (Unfinished, s4)
               | (Ok value, s4) \<Rightarrow> (Ok w, upd_watcher w (\<lambda>W. W\<lparr>w_value := value\<rparr>) s4)))"

section \<open>Observer: observe, defineReactive and the reactive setter\<close>

text \<open>Modelled from the spec: the constructor of a Dep takes the next id of a monotonic counter.\<close>

definition Dep_new :: "state \<Rightarrow> dep_id \<times> state" where
  "Dep_new s = (dep_uid s, s\<lparr>dep_uid := dep_uid s + 1, subs := (subs s)(dep_uid s := [])\<rparr>)"

definition upd_obj :: "ref \<Rightarrow> (obj \<Rightarrow> obj) \<Rightarrow> state \<Rightarrow> state" where
  "upd_obj r f s = s\<lparr>heap := (heap s)(r := f (heap s r))\<rparr>"

text \<open>Defining a property keeps the place of an existing key and appends a new one.\<close>

fun put :: "string \<Rightarrow> property \<Rightarrow> (string \<times> property) list \<Rightarrow> (string \<times> property) list" where
  "put k v [] = [(k, v)]"
| "put k v ((k', v') # ps) = (if k = k' then (k, v) # ps else (k', v') # put k v ps)"

definition current_value :: "cell \<Rightarrow> jsval" where
  "current_value c = (case c_getter c of Some (Returns v) \<Rightarrow> v | _ \<Rightarrow> c_val c)"

text \<open>
  \<^verbatim>\<open>observe\<close> (observer/index.js, at lines 410-432 of watcher.js's file), the constructor
  of \<^verbatim>\<open>Observer\<close> with \<^verbatim>\<open>walk\<close> and \<^verbatim>\<open>observeArray\<close> (lines 326-375) and
  \<^verbatim>\<open>defineReactive\<close> (lines 437-510). The pieces without recursion come first:
  the test \<^verbatim>\<open>observe\<close> makes before it creates an Observer, the start of the constructor
  (a new Dep, \<^verbatim>\<open>vmCount = 0\<close>, \<^verbatim>\<open>__ob__\<close>), the increment of \<^verbatim>\<open>vmCount\<close> for root data,
  the part of \<^verbatim>\<open>defineReactive\<close> before \<^verbatim>\<open>observe(val)\<close> and the installation of the
  accessor pair. \<^verbatim>\<open>defineReactive\<close> takes \<^verbatim>\<open>val\<close> as an option: \<open>None\<close> is the call
  with two arguments. A property that is already reactive is redefined as an accessor
  pair that returns its current value.
\<close>

definition observable :: "env \<Rightarrow> state \<Rightarrow> ref \<Rightarrow> bool" where
  "observable en s r =
     (shouldObserve s \<and> \<not> serverRendering en
      \<and> (o_kind (heap s r) = ArrayObject \<or> o_kind (heap s r) = PlainObject)
      \<and> o_extensible (heap s r) \<and> \<not> o_isVue (heap s r))"

definition Observer_init :: "ref \<Rightarrow> state \<Rightarrow> dep_id \<times> state" where
  "Observer_init r s =
     (let (dp, s1) = Dep_new s
      in (dp, upd_obj r (\<lambda>ob. ob\<lparr>o_ob := Some \<lparr>ob_dep = dp, vmCount = 0\<rparr>\<rparr>) s1))"

definition count_root :: "bool \<Rightarrow> ref \<Rightarrow> state \<Rightarrow> state" where
  "count_root asRootData r s =
     (if asRootData
      then upd_obj r (\<lambda>ob. ob\<lparr>o_ob := map_option (\<lambda>b. b\<lparr>vmCount := vmCount b + 1\<rparr>) (o_ob ob)\<rparr>) s
      else s)"

datatype prepared = Leave "unit res" | Proceed "accessor option" bool jsval

definition defineReactive_prepare :: "property option \<Rightarrow> jsval option \<Rightarrow> prepared" where
  "defineReactive_prepare property valarg =
     (let configurable = (case property of None \<Rightarrow> True | Some (Data v cf) \<Rightarrow> cf
                          | Some (Accessor g st cf) \<Rightarrow> cf | Some (Reactive c) \<Rightarrow> True);
          getter = (case property of Some (Accessor g st cf) \<Rightarrow> g
                    | Some (Reactive c) \<Rightarrow> Some (Returns (current_value c)) | _ \<Rightarrow> None);
          setter = (case property of Some (Accessor g st cf) \<Rightarrow> st
                    | Some (Reactive c) \<Rightarrow> True | _ \<Rightarrow> False)
      in if \<not> configurable then Leave (Ok ())
         else if (getter = None \<or> setter) \<and> valarg = None then
           (case property of
              Some (Data v cf) \<Rightarrow> Proceed getter setter v
            | Some (Accessor (Some (Returns v)) st cf) \<Rightarrow> Proceed getter setter v
            | Some (Accessor (Some (Throws x)) st cf) \<Rightarrow> Leave (Threw x)
            | Some (Reactive c) \<Rightarrow> Proceed getter setter (current_value c)
            | _ \<Rightarrow> Proceed getter setter Undefined)
         else Proceed getter setter (case valarg of None \<Rightarrow> Undefined | Some v \<Rightarrow> v))"

definition install :: "ref \<Rightarrow> string \<Rightarrow> cell \<Rightarrow> state \<Rightarrow> state" where
  "install r k c s = upd_obj r (\<lambda>ob. ob\<lparr>o_props := put k (Reactive c) (o_props ob)\<rparr>) s"

function (sequential) observe :: "env \<Rightarrow> nat \<Rightarrow> jsval \<Rightarrow> bool \<Rightarrow> state \<Rightarrow> dep_id option res \<times> state"
and walk :: "env \<Rightarrow> nat \<Rightarrow> ref \<Rightarrow> string list \<Rightarrow> state \<Rightarrow> unit res \<times> state"
and observeArray :: "env \<Rightarrow> nat \<Rightarrow> jsval list \<Rightarrow> state \<Rightarrow> unit res \<times> state"
and defineReactive ::
  "env \<Rightarrow> nat \<Rightarrow> ref \<Rightarrow> string \<Rightarrow> jsval option \<Rightarrow> bool \<Rightarrow> bool \<Rightarrow> state \<Rightarrow> unit res \<times> state"
where
  "observe en 0 v asRootData s = (Threw RangeError, s)"
| "observe en (Suc d) (Ref r) asRootData s =
     (if o_isVNode (heap s r) then (Ok None, s)
      else if o_ob (heap s r) \<noteq> None
      then (Ok (map_option ob_dep (o_ob (heap s r))), count_root asRootData r s)
      else if observable en s r then
        (case (if o_kind (heap s r) = ArrayObject
               then observeArray en d (o_elems (heap s r)) (snd (Observer_init r s))
               else walk en d r (map fst (o_props (heap s r))) (snd (Observer_init r s))) of
           (Threw x, s3) \<Rightarrow> (Threw x, s3)
         | (Unfinished, s3) \<Rightarrow> (Unfinished, s3)
         | (Ok u, s3) \<Rightarrow> (Ok (Some (fst (Observer_init r s))), count_root asRootData r s3))
      else (Ok None, s))"
| "observe en (Suc d) v asRootData s = (Ok None, s)"
| "walk en d r [] s = (Ok (), s)"
| "walk en d r (k # ks) s =
     (case defineReactive en d r k None False False s of
        (Threw x, s1) \<Rightarrow> (Threw x, s1)
      | (Unfinished, s1) \<Rightarrow> (Unfinished, s1)
      | (Ok u, s1) \<Rightarrow> walk en d r ks s1)"
| "observeArray en d [] s = (Ok (), s)"
| "observeArray en d (e # es) s =
     (case observe en d e False s of
        (Threw x, s1) \<Rightarrow> (Threw x, s1)
      | (Unfinished, s1) \<Rightarrow> (Unfinished, s1)
      | (Ok u, s1) \<Rightarrow> observeArray en d es s1)"
| "defineReactive en d r k valarg customSetter shallow s =
     (case defineReactive_prepare (map_of (o_props (heap s r)) k) valarg of
        Leave x \<Rightarrow> (x, snd (Dep_new s))
      | Proceed getter setter val \<Rightarrow>
          (case (if shallow then (Ok None, snd (Dep_new s))
                 else observe en d val False (snd (Dep_new s))) of
             (Threw x, s1) \<Rightarrow> (Threw x, s1)
           | (Unfinished, s1) \<Rightarrow> (Unfinished, s1)
           | (Ok childOb, s1) \<Rightarrow>
               (Ok (), install r k \<lparr>c_dep = fst (Dep_new s), c_val = val, c_childOb = childOb,
                                    c_getter = getter, c_setter = setter,
                                    c_customSetter = customSetter, c_shallow = shallow\<rparr> s1)))"

  by pat_completeness auto

termination
  apply (relation "measures [
     (\<lambda>x. case x of Inl (Inl (en, d, v, a, s)) \<Rightarrow> d | Inl (Inr (en, d, r, ks, s)) \<Rightarrow> d
         | Inr (Inl (en, d, es, s)) \<Rightarrow> d | Inr (Inr (en, d, r, k, va, cs, sh, s)) \<Rightarrow> d),
     (\<lambda>x. case x of Inl (Inl (en, d, v, a, s)) \<Rightarrow> 0 | Inl (Inr (en, d, r, ks, s)) \<Rightarrow> 2
         | Inr (Inl (en, d, es, s)) \<Rightarrow> 2 | Inr (Inr (en, d, r, k, va, cs, sh, s)) \<Rightarrow> Suc 0),
     (\<lambda>x. case x of Inl (Inl (en, d, v, a, s)) \<Rightarrow> 0 | Inl (Inr (en, d, r, ks, s)) \<Rightarrow> length ks
         | Inr (Inl (en, d, es, s)) \<Rightarrow> length es | Inr (Inr (en, d, r, k, va, cs, sh, s)) \<Rightarrow> 0)]")
  apply simp_all
  done

text \<open>The closure variables of a reactive property are changed in place.\<close>

definition upd_cell :: "ref \<Rightarrow> string \<Rightarrow> (cell \<Rightarrow> cell) \<Rightarrow> state \<Rightarrow> state" where
  "upd_cell r k f s =
     upd_obj r (\<lambda>ob. ob\<lparr>o_props :=
        map (\<lambda>(k', p). if k' = k then (case p of Reactive c \<Rightarrow> (k', Reactive (f c)) | _ \<Rightarrow> (k', p))
                         else (k', p)) (o_props ob)\<rparr>) s"

definition self_unequal :: "jsval \<Rightarrow> bool" where
  "self_unequal v = (\<not> strict_eq v v)"

text \<open>
  \<^verbatim>\<open>reactiveSetter\<close> (lines 483-509) of the property \<open>k\<close> of the object \<open>r\<close>, whose
  closure is \<open>c\<close>.
\<close>

definition reactiveSetter ::
  "env \<Rightarrow> ref \<Rightarrow> string \<Rightarrow> cell \<Rightarrow> jsval \<Rightarrow> state \<Rightarrow> unit res \<times> state" where
  "reactiveSetter en r k c newVal s =
     (case call_getter c of
        Threw x \<Rightarrow> (Threw x, s)
      | Unfinished \<Rightarrow> (Unfinished, s)
      | Ok value \<Rightarrow>
          if strict_eq newVal value \<or> (self_unequal newVal \<and> self_unequal value) then (Ok (), s)
          else
            let s1 = (if \<not> production en \<and> c_customSetter c
                      then emit (Warn ''customSetter'') s else s)
            in if c_getter c \<noteq> None \<and> \<not> c_setter c then (Ok (), s1)
               else
                 let s2 = (if c_setter c
                           then upd_cell r k (\<lambda>b. b\<lparr>c_getter :=
                                  map_option (\<lambda>g. Returns newVal) (c_getter b)\<rparr>) s1
                           else upd_cell r k (\<lambda>b. b\<lparr>c_val := newVal\<rparr>) s1)
                 in (case (if c_shallow c then (Ok None, s2)
                           else observe en (stack_limit en) newVal False s2) of
                       (Threw x, s3) \<Rightarrow> (Threw x, s3)
                     | (Unfinished, s3) \<Rightarrow> (Unfinished, s3)
                     | (Ok childOb, s3) \<Rightarrow>
                         Dep_notify en (c_dep c)
                           (upd_cell r k (\<lambda>b. b\<lparr>c_childOb := childOb\<rparr>) s3)))"

text \<open>
  The assignment \<^verbatim>\<open>obj[key] = val\<close> (strict mode): a reactive property runs its setter,
  a missing key is added to an extensible object.
\<close>

definition prop_set :: "env \<Rightarrow> ref \<Rightarrow> string \<Rightarrow> jsval \<Rightarrow> state \<Rightarrow> unit res \<times> state" where
  "prop_set en r k v s =
     (case map_of (o_props (heap s r)) k of
        None \<Rightarrow>
          if o_extensible (heap s r)
          then (Ok (), upd_obj r (\<lambda>ob. ob\<lparr>o_props := put k (Data v True) (o_props ob)\<rparr>) s)
          else (Threw TypeError, s)
      | Some (Data v' cf) \<Rightarrow>
          (Ok (), upd_obj r (\<lambda>ob. ob\<lparr>o_props := put k (Data v cf) (o_props ob)\<rparr>) s)
      | Some (Accessor g st cf) \<Rightarrow>
          if st
          then (Ok (), upd_obj r (\<lambda>ob. ob\<lparr>o_props :=
                  put k (Accessor (map_option (\<lambda>a. Returns v) g) st cf) (o_props ob)\<rparr>) s)
          else (Threw TypeError, s)
      | Some (Reactive c) \<Rightarrow> reactiveSetter en r k c v s)"

section \<open>Array methods\<close>

text \<open>
  The native methods of \<^verbatim>\<open>Array.prototype\<close> on the list of elements. \<^verbatim>\<open>splice\<close>
  returns a new array, given by its elements; \<^verbatim>\<open>sort\<close> and \<^verbatim>\<open>reverse\<close> return the
  array itself. \<^verbatim>\<open>sort\<close> carries the rearrangement the engine computes with the
  caller's comparison function.
\<close>

datatype call =
    Push "jsval list"
  | Pop
  | Shift
  | Unshift "jsval list"
  | Splice "int option" "int option" "jsval list"
  | Sort "jsval list \<Rightarrow> jsval list"
  | Reverse

datatype mresult = RVal jsval | RArr "jsval list"

definition native :: "call \<Rightarrow> ref \<Rightarrow> jsval list \<Rightarrow> mresult \<times> jsval list" where
  "native c r xs =
     (case c of
        Push args \<Rightarrow> (RVal (Num (int (length xs + length args))), xs @ args)
      | Pop \<Rightarrow> (if xs = [] then (RVal Undefined, []) else (RVal (last xs), butlast xs))
      | Shift \<Rightarrow> (case xs of [] \<Rightarrow> (RVal Undefined, []) | x # rest \<Rightarrow> (RVal x, rest))
      | Unshift args \<Rightarrow> (RVal (Num (int (length xs + length args))), args @ xs)
      | Splice st dc items \<Rightarrow>
          (case st of
             None \<Rightarrow> (RArr [], xs)
           | Some a \<Rightarrow>
               let len = int (length xs);
                   start = nat (if a < 0 then max (len + a) 0 else min a len);
                   del = nat (case dc of None \<Rightarrow> len - int start
                              | Some n \<Rightarrow> min (max n 0) (len - int start))
               in (RArr (take del (drop start xs)),
                   take start xs @ items @ drop (start + del) xs))
      | Sort f \<Rightarrow> (RVal (Ref r), f xs)
      | Reverse \<Rightarrow> (RVal (Ref r), rev xs))"

definition inserted :: "call \<Rightarrow> jsval list option" where
  "inserted c = (case c of Push args \<Rightarrow> Some args | Unshift args \<Rightarrow> Some args
     | Splice st dc items \<Rightarrow> Some items | _ \<Rightarrow> None)"

text \<open>\<^verbatim>\<open>mutator\<close> (observer/array.js, at lines 564-591 of state.js's file) on the array \<open>r\<close>.\<close>

definition mutator :: "env \<Rightarrow> ref \<Rightarrow> call \<Rightarrow> state \<Rightarrow> mresult res \<times> state" where
  "mutator en r c s =
     (let (result, xs) = native c r (o_elems (heap s r));
          s1 = upd_obj r (\<lambda>ob. ob\<lparr>o_elems := xs\<rparr>) s
      in case o_ob (heap s1 r) of
           None \<Rightarrow> (Threw TypeError, s1)
         | Some ob \<Rightarrow>
             (case (case inserted c of None \<Rightarrow> (Ok (), s1)
                    | Some ins \<Rightarrow> observeArray en (stack_limit en) ins s1) of
                (Threw x, s2) \<Rightarrow> (Threw x, s2)
              | (Unfinished, s2) \<Rightarrow> (Unfinished, s2)
              | (Ok u, s2) \<Rightarrow>
                  (case Dep_notify en (ob_dep ob) s2 of
                     (Threw x, s3) \<Rightarrow> (Threw x, s3)
                   | (Unfinished, s3) \<Rightarrow> (Unfinished, s3)
                   | (Ok u, s3) \<Rightarrow> (Ok result, s3))))"

section \<open>The public set\<close>

datatype jskey = Index nat | Name string

definition Object_prototype :: "string list" where
  "Object_prototype = [''constructor'', ''__defineGetter__'', ''__defineSetter__'',
     ''hasOwnProperty'', ''__lookupGetter__'', ''__lookupSetter__'', ''isPrototypeOf'',
     ''propertyIsEnumerable'', ''toString'', ''valueOf'', ''__proto__'', ''toLocaleString'']"

text \<open>The \<^verbatim>\<open>in\<close> operator: own properties and the names found along the prototype chain.\<close>

definition key_in :: "string \<Rightarrow> obj \<Rightarrow> bool" where
  "key_in k ob = (k \<in> fst ` set (o_props ob) \<or> k \<in> set (o_inherited ob)
                  \<or> k \<in> set Object_prototype)"

text \<open>The name of a property given by a number is its decimal numeral.\<close>

fun decimal :: "nat \<Rightarrow> string" where
  "decimal n = (if n < 10 then [char_of (48 + n)]
                else decimal (n div 10) @ [char_of (48 + n mod 10)])"

definition key_name :: "jskey \<Rightarrow> string" where
  "key_name k = (case k of Index n \<Rightarrow> decimal n | Name a \<Rightarrow> a)"

text \<open>
  \<^verbatim>\<open>set\<close> (observer/index.js, at lines 540-581 of watcher.js's file). A key that
  \<^verbatim>\<open>isValidArrayIndex\<close> accepts is an \<open>Index\<close>. The \<^verbatim>\<open>splice\<close> of an observed array is
  the wrapped one.
\<close>

definition Vue_set :: "env \<Rightarrow> jsval \<Rightarrow> jskey \<Rightarrow> jsval \<Rightarrow> state \<Rightarrow> jsval res \<times> state" where
  "Vue_set en tgt key val s0 =
     (case tgt of
        Ref r \<Rightarrow>
          let s = s0; ob = heap s0 r in
          (case (o_kind ob, key) of
             (ArrayObject, Index n) \<Rightarrow>
               let s1 = upd_obj r (\<lambda>b. b\<lparr>o_elems := o_elems b
                          @ replicate (n - length (o_elems b)) Undefined\<rparr>) s;
                   c = Splice (Some (int n)) (Some 1) [val]
               in if o_ob (heap s1 r) \<noteq> None then
                    (case mutator en r c s1 of
                       (Threw x, s2) \<Rightarrow> (Threw x, s2)
                     | (Unfinished, s2) \<Rightarrow> (Unfinished, s2)
                     | (Ok u, s2) \<Rightarrow> (Ok val, s2))
                  else (Ok val, upd_obj r (\<lambda>b. b\<lparr>o_elems :=
                          snd (native c r (o_elems b))\<rparr>) s1)
           | _ \<Rightarrow>
               if key_in (key_name key) ob \<and> key_name key \<notin> set Object_prototype then
                 (case prop_set en r (key_name key) val s of
                    (Threw x, s2) \<Rightarrow> (Threw x, s2)
                  | (Unfinished, s2) \<Rightarrow> (Unfinished, s2)
                  | (Ok u, s2) \<Rightarrow> (Ok val, s2))
               else if o_isVue ob \<or> (case o_ob ob of None \<Rightarrow> False | Some b \<Rightarrow> vmCount b \<noteq> 0)
               then (Ok val,
                     if \<not> production en
                     then warn (''Avoid adding reactive properties to a Vue instance or its ''
                                @ ''root $data at runtime - declare it upfront in the data option.'') s
                     else s)
               else
                 (case o_ob ob of
                    None \<Rightarrow>
                      (case prop_set en r (key_name key) val s of
                         (Threw x, s2) \<Rightarrow> (Threw x, s2)
                       | (Unfinished, s2) \<Rightarrow> (Unfinished, s2)
                       | (Ok u, s2) \<Rightarrow> (Ok val, s2))
                  | Some b \<Rightarrow>
                      (case defineReactive en (stack_limit en) r (key_name key) (Some val)
                              False False s of
                         (Threw x, s2) \<Rightarrow> (Threw x, s2)
                       | (Unfinished, s2) \<Rightarrow> (Unfinished, s2)
                       | (Ok u, s2) \<Rightarrow>
                           (case Dep_notify en (ob_dep b) s2 of
                              (Threw x, s3) \<Rightarrow> (Threw x, s3)
                            | (Unfinished, s3) \<Rightarrow> (Unfinished, s3)
                            | (Ok u, s3) \<Rightarrow> (Ok val, s3)))))
      | _ \<Rightarrow>
          (Threw TypeError,
           if \<not> production en
           then warn ''Cannot set reactive property on undefined, null, or primitive value'' s0
           else s0))"

section \<open>Initial state\<close>

text \<open>
  The state of a fresh page: nothing observed, no Watcher, an idle scheduler; a
  development build with the default asynchronous flush and callbacks that do nothing.
\<close>

definition noop_cb :: "wid \<Rightarrow> jsval \<Rightarrow> jsval \<Rightarrow> state \<Rightarrow> unit res \<times> state" where
  "noop_cb w v old s = (Ok (), s)"

definition dev :: env where
  "dev = \<lparr>production = False, async = True, serverRendering = False, stack_limit = 50,
           flush_budget = 1000, cb = noop_cb\<rparr>"

definition empty_obj :: obj where
  "empty_obj = \<lparr>o_kind = PlainObject, o_props = [], o_elems = [], o_ob = None, o_isVue = False,
     o_isVNode = False, o_extensible = True, o_frozen = False, o_inherited = []\<rparr>"

definition no_watcher :: watcher where
  "no_watcher = \<lparr>w_vm = 0, w_deep = False, w_user = False, w_lazy = False, w_sync = False,
     w_before = False, w_dirty = False, w_active = False, w_deps = [], w_newDeps = [],
     w_depIds = {}, w_newDepIds = {}, w_expression = [], w_getter = Lit Undefined,
     w_value = Undefined\<rparr>"

definition no_component :: component where
  "no_component = \<lparr>vm_watchers = [], vm_watcher = None, vm_computedWatchers = [],
     vm_isBeingDestroyed = False, vm_isMounted = False, vm_isDestroyed = False\<rparr>"

definition init :: state where
  "init = \<lparr>heap = (\<lambda>r. empty_obj), dep_uid = 0, subs = (\<lambda>d. []), target = None,
     targetStack = [], uid = 0, watchers = (\<lambda>w. no_watcher), vms = (\<lambda>v. no_component),
     sched = \<lparr>queue = [], has = {}, circular = (\<lambda>w. 0), waiting = False, flushing = False,
              index = 0, activatedChildren = []\<rparr>,
     tick = \<lparr>callbacks = [], pending = False, microtasks = 0\<rparr>,
     shouldObserve = True, trace = []\<rparr>"

definition with_obj :: "ref \<Rightarrow> obj \<Rightarrow> state \<Rightarrow> state" where
  "with_obj r ob s = s\<lparr>heap := (heap s)(r := ob)\<rparr>"

definition nan_cell :: cell where
  "nan_cell = \<lparr>c_dep = 0, c_val = NaN, c_childOb = None, c_getter = None, c_setter = False,
     c_customSetter = False, c_shallow = False\<rparr>"

definition root_warning :: string where
  "root_warning = ''Avoid adding reactive properties to a Vue instance or its ''
                   @ ''root $data at runtime - declare it upfront in the data option.''"

definition is_root :: "obj \<Rightarrow> bool" where
  "is_root ob = (o_isVue ob \<or> (case o_ob ob of None \<Rightarrow> False | Some b \<Rightarrow> vmCount b > 0))"

definition vm_obj :: obj where
  "vm_obj = empty_obj\<lparr>o_kind := OtherObject, o_isVue := True, o_inherited := [''$set'']\<rparr>"

text \<open>
  The bookkeeping of a Watcher is consistent: it tracks each of its Deps once, \<^verbatim>\<open>depIds\<close>
  holds the ids of \<^verbatim>\<open>deps\<close>, the new generation is empty, and the Watcher is a
  subscriber of exactly the Deps it tracks, once in each. The constructor leaves a new
  Watcher so when it returns, and an evaluation that reaches the reconciliation of
  \<^verbatim>\<open>get\<close> keeps it; \<^verbatim>\<open>teardown()\<close> does not, nor does an evaluation whose deep traversal
  throws.
\<close>

definition wf_watcher :: "state \<Rightarrow> wid \<Rightarrow> bool" where
  "wf_watcher s w =
     (distinct (w_deps (watchers s w))
      \<and> w_depIds (watchers s w) = set (w_deps (watchers s w))
      \<and> w_newDeps (watchers s w) = [] \<and> w_newDepIds (watchers s w) = {}
      \<and> (\<forall>d. count_list (subs s d) w = (if d \<in> set (w_deps (watchers s w)) then 1 else 0)))"

definition is_Callback :: "event \<Rightarrow> bool" where
  "is_Callback e = (case e of Callback w v old \<Rightarrow> True | _ \<Rightarrow> False)"

text \<open>A component that owns one user Watcher on a property with Dep 3; with the flag of a
  destruction in progress.\<close>

definition watching :: state where
  "watching = init\<lparr>
     uid := 1,
     watchers := (watchers init)(1 := no_watcher\<lparr>w_user := True, w_active := True,
                    w_deps := [3], w_depIds := {3}\<rparr>),
     subs := (subs init)(3 := [1]),
     vms := (vms init)(0 := no_component\<lparr>vm_watchers := [1]\<rparr>)\<rparr>"

definition destroying :: state where
  "destroying = watching\<lparr>vms := (vms watching)(0 := no_component\<lparr>vm_watchers := [1],
     vm_isBeingDestroyed := True\<rparr>)\<rparr>"

text \<open>The Deps an evaluation reads: the \<open>Depend\<close> entries the trace gained.\<close>

definition dep_of :: "event \<Rightarrow> dep_id list" where
  "dep_of e = (case e of Depend d \<Rightarrow> [d] | _ \<Rightarrow> [])"

definition read_deps :: "state \<Rightarrow> state \<Rightarrow> dep_id list" where
  "read_deps s s' = concat (map dep_of (drop (length (trace s)) (trace s')))"

text \<open>The order in which new Deps enter \<^verbatim>\<open>newDeps\<close>: first reads, without repetition.\<close>

fun news :: "dep_id set \<Rightarrow> dep_id list \<Rightarrow> dep_id list" where
  "news seen [] = []"
| "news seen (d # ds) = (if d \<in> seen then news seen ds else d # news (insert d seen) ds)"

text \<open>An evaluation changes the state by calls of \<^verbatim>\<open>Dep.depend\<close> only.\<close>

definition reads :: "state \<Rightarrow> state \<Rightarrow> bool" where
  "reads s s' = (\<exists>ds. s' = fold Dep_depend ds s)"

text \<open>
  An observed object \<^verbatim>\<open>{b: 10, c: 20}\<close> at address 1, with the Deps 1 and 2 of its two
  properties, and a Watcher 5 that read \<^verbatim>\<open>b\<close> in its last evaluation. In \<open>tracking\<close> its
  getter now reads \<^verbatim>\<open>c\<close>; in \<open>tracking_b\<close> it is a computed Watcher, marked dirty,
  that still reads \<^verbatim>\<open>b\<close>.
\<close>

definition data_cell :: "dep_id \<Rightarrow> jsval \<Rightarrow> cell" where
  "data_cell d v = \<lparr>c_dep = d, c_val = v, c_childOb = None, c_getter = None, c_setter = False,
     c_customSetter = False, c_shallow = False\<rparr>"



text \<open>
  Data \<^verbatim>\<open>{o: {get x() { throw 'boom' }}}\<close> (addresses 1 and 2), observed as root data,
  and the options of a deep user watch.
\<close>

definition fragile :: state where
  "fragile = init\<lparr>heap := (heap init)
     (1 := empty_obj\<lparr>o_props := [(''o'', Data (Ref 2) True)]\<rparr>,
      2 := empty_obj\<lparr>o_props := [(''x'', Accessor (Some (Throws (Str ''boom''))) False True)]\<rparr>)\<rparr>"

definition fragile_observed :: state where
  "fragile_observed = snd (observe dev (stack_limit dev) (Ref 1) True fragile)"

definition deep_user :: options where
  "deep_user = \<lparr>opt_deep = True, opt_user = True, opt_lazy = False, opt_sync = False,
     opt_before = False\<rparr>"

text \<open>The number of evaluations of getters between two states: the \<open>Getter\<close> entries gained.\<close>

definition is_Getter :: "event \<Rightarrow> bool" where
  "is_Getter e = (case e of Getter w \<Rightarrow> True | _ \<Rightarrow> False)"

definition evaluations :: "state \<Rightarrow> state \<Rightarrow> nat" where
  "evaluations s s' = length (filter is_Getter (drop (length (trace s)) (trace s')))"

text \<open>
  A component (address 0) with root data \<^verbatim>\<open>{a: 1, b: 2}\<close> (address 1) and a computed
  property \<^verbatim>\<open>sum\<close> over \<^verbatim>\<open>a + b\<close>: the data is observed, the lazy Watcher is constructed
  and entered in \<^verbatim>\<open>_computedWatchers\<close>.
\<close>

definition lazy_opts :: options where
  "lazy_opts = \<lparr>opt_deep = False, opt_user = False, opt_lazy = True, opt_sync = False,
     opt_before = False\<rparr>"

definition sum_expr :: expr where
  "sum_expr = Plus (Field (Lit (Ref 1)) ''a'') (Field (Lit (Ref 1)) ''b'')"

definition sum_data :: state where
  "sum_data = snd (observe dev (stack_limit dev) (Ref 1) True
     (init\<lparr>heap := (heap init)(1 := empty_obj\<lparr>o_props :=
        [(''a'', Data (Num 1) True), (''b'', Data (Num 2) True)]\<rparr>)\<rparr>))"

definition sum_ready :: state where
  "sum_ready = upd_vm 0 (\<lambda>c. c\<lparr>vm_computedWatchers := [(''sum'', 1)]\<rparr>)
     (snd (Watcher_new dev 0 sum_expr ''a + b'' (Some lazy_opts) False sum_data))"

definition sum_read :: state where
  "sum_read = snd (computedGetter dev 0 ''sum'' sum_ready)"

definition sum_written :: state where
  "sum_written = snd (prop_set dev 1 ''a'' (Num 5) (snd (prop_set dev 1 ''a'' (Num 4) sum_read)))"

text \<open>
  What \<^verbatim>\<open>queueWatcher\<close> does to the scheduler while a flush is running (\<^verbatim>\<open>flushing\<close>
  and \<^verbatim>\<open>waiting\<close> are set): a Watcher not marked pending is marked and spliced in behind
  the cursor.
\<close>

definition sched_enqueue :: "wid \<Rightarrow> scheduler \<Rightarrow> scheduler" where
  "sched_enqueue w q =
     (if w \<in> has q then q
      else q\<lparr>has := insert w (has q),
             queue := take (insert_pos (index q) (queue q) w (length (queue q))) (queue q) @ [w]
                      @ drop (insert_pos (index q) (queue q) w (length (queue q))) (queue q)\<rparr>)"

text \<open>
  In a list of trace entries, \<open>runs_before p c\<close>: no \<^verbatim>\<open>run()\<close> of \<open>c\<close> begins before one of
  \<open>p\<close> has begun.
\<close>

fun runs_before :: "wid \<Rightarrow> wid \<Rightarrow> event list \<Rightarrow> bool" where
  "runs_before p c [] = True"
| "runs_before p c (e # es) =
     (if e = Run p then True else if e = Run c then False else runs_before p c es)"


text \<open>
  The options of a user watch, and root data \<^verbatim>\<open>{a: 0, b: 0}\<close> (address 1) of a component
  (address 0), observed.
\<close>

definition user_opts :: options where
  "user_opts = \<lparr>opt_deep = False, opt_user = True, opt_lazy = False, opt_sync = False,
     opt_before = False\<rparr>"






text \<open>
  A watch that re-triggers itself: root data \<^verbatim>\<open>{n: 0}\<close> (address 1), a user watch of
  \<^verbatim>\<open>n\<close> (Watcher 1) whose callback assigns \<^verbatim>\<open>n = n + 1\<close>, and the render Watcher
  (Watcher 2) which reads \<^verbatim>\<open>n\<close>; then \<^verbatim>\<open>n = 1\<close> is written. \<open>runaway\<close> is the
  development build and \<open>runaway_production\<close> the production build, the callback running in
  the build it belongs to.
\<close>

definition bump_cb :: "bool \<Rightarrow> wid \<Rightarrow> jsval \<Rightarrow> jsval \<Rightarrow> state \<Rightarrow> unit res \<times> state" where
  "bump_cb p w v old s =
     (if w = 1 then prop_set (dev\<lparr>production := p\<rparr>) 1 ''n'' (js_plus v (Num 1)) s else (Ok (), s))"

definition runaway :: env where
  "runaway = dev\<lparr>cb := bump_cb False\<rparr>"


definition counter_data :: "env \<Rightarrow> state" where
  "counter_data en = snd (observe en (stack_limit en) (Ref 1) True
     (init\<lparr>heap := (heap init)(1 := empty_obj\<lparr>o_props := [(''n'', Data (Num 0) True)]\<rparr>)\<rparr>))"

definition counter_watched :: "env \<Rightarrow> state" where
  "counter_watched en =
     snd (Watcher_new en 0 (Field (Lit (Ref 1)) ''n'') ''n'' None True
       (snd (Watcher_new en 0 (Field (Lit (Ref 1)) ''n'') ''n'' (Some user_opts) False
          (counter_data en))))"

definition counter_written :: "env \<Rightarrow> state" where
  "counter_written en = snd (prop_set en 1 ''n'' (Num 1) (counter_watched en))"

text \<open>
  The states this flush goes through, \<open>x\<close> being the expression the Watchers keep: \<^verbatim>\<open>n\<close> is \<open>k\<close>, the cursor is at \<open>i\<close>, the queue
  holds Watcher 1 \<open>m\<close> times ahead of Watcher 2, Watcher 1 has re-appeared \<open>c\<close> times and
  the trace is \<open>tr\<close>. \<open>runaway_trace k j\<close> is what \<open>j\<close> iterations add to the trace.
\<close>

definition loop_state :: "string \<Rightarrow> int \<Rightarrow> nat \<Rightarrow> nat \<Rightarrow> nat \<Rightarrow> event list \<Rightarrow> state" where
  "loop_state x k i m c tr =
     \<lparr>heap = (\<lambda>r. empty_obj)(1 := empty_obj\<lparr>
         o_props := [(''n'', Reactive (data_cell 1 (Num k)))],
         o_ob := Some \<lparr>ob_dep = 0, vmCount = 1\<rparr>\<rparr>),
      dep_uid = 2, subs = (\<lambda>d. [])(1 := [1, 2]), target = None, targetStack = [], uid = 2,
      watchers = (\<lambda>w. no_watcher)
        (2 := no_watcher\<lparr>w_active := True, w_deps := [1], w_depIds := {1},
                w_expression := x, w_getter := Field (Lit (Ref 1)) ''n'', w_value := Num 0\<rparr>,
         1 := no_watcher\<lparr>w_user := True, w_active := True, w_deps := [1], w_depIds := {1},
                w_expression := x, w_getter := Field (Lit (Ref 1)) ''n'',
                w_value := Num (k - 1)\<rparr>),
      vms = (\<lambda>v. no_component)(0 := no_component\<lparr>vm_watchers := [1, 2], vm_watcher := Some 2\<rparr>),
      sched = \<lparr>queue = replicate m 1 @ [2], has = {1, 2}, circular = (\<lambda>w. 0)(1 := c),
               waiting = True, flushing = True, index = i, activatedChildren = []\<rparr>,
      tick = \<lparr>callbacks = [], pending = False, microtasks = 0\<rparr>,
      shouldObserve = True, trace = tr\<rparr>"

fun runaway_trace :: "int \<Rightarrow> nat \<Rightarrow> event list" where
  "runaway_trace k 0 = []"
| "runaway_trace k (Suc j) =
     [Run 1, Getter 1, Depend 1, Callback 1 (Num k) (Num (k - 1)), Notify 1, Update 1, Update 2]
     @ runaway_trace (k + 1) j"

definition runaway_warning :: "string \<Rightarrow> string" where
  "runaway_warning x = ''You may have an infinite update loop in watcher with expression '' @ x"


text \<open>
  What observing changes: the heap, the counter of Deps and the subscriber lists of the new
  Deps, which are empty. Everything else is as before.
\<close>

definition heap_only :: "state \<Rightarrow> state \<Rightarrow> bool" where
  "heap_only s s' =
     (sched s' = sched s \<and> tick s' = tick s \<and> watchers s' = watchers s \<and> trace s' = trace s
      \<and> vms s' = vms s \<and> uid s' = uid s \<and> target s' = target s
      \<and> targetStack s' = targetStack s \<and> shouldObserve s' = shouldObserve s
      \<and> dep_uid s \<le> dep_uid s'
      \<and> (\<forall>d. subs s' d = subs s d \<or> (dep_uid s \<le> d \<and> subs s' d = [])))"

text \<open>
  The ids in use are below the counters: every subscriber and every Watcher listed by an
  instance has an id the constructor has given out, an instance lists a Watcher once, and
  the Deps not yet created have no subscribers.
\<close>

definition ids_fresh :: "state \<Rightarrow> bool" where
  "ids_fresh s =
     ((\<forall>d. \<forall>w \<in> set (subs s d). w \<le> uid s)
      \<and> (\<forall>v. \<forall>w \<in> set (vm_watchers (vms s v)). w \<le> uid s)
      \<and> (\<forall>v. distinct (vm_watchers (vms s v))))"

text \<open>
  Root data \<^verbatim>\<open>{ok: true, b: 10, c: 20}\<close> (address 1) of a component (address 0), observed,
  whose properties get the Deps 1, 2 and 3; a Watcher constructed on
  \<^verbatim>\<open>ok ? b : c\<close> (Watcher 1), which reads \<^verbatim>\<open>ok\<close> and \<^verbatim>\<open>b\<close>; then \<^verbatim>\<open>ok = false\<close> is
  written, which queues the Watcher.
\<close>

definition switch_expr :: expr where
  "switch_expr = Cond (Field (Lit (Ref 1)) ''ok'') (Field (Lit (Ref 1)) ''b'')
                      (Field (Lit (Ref 1)) ''c'')"

definition switch_data :: state where
  "switch_data = snd (observe dev (stack_limit dev) (Ref 1) True
     (init\<lparr>heap := (heap init)(1 := empty_obj\<lparr>o_props :=
        [(''ok'', Data (Boolean True) True), (''b'', Data (Num 10) True),
         (''c'', Data (Num 20) True)]\<rparr>)\<rparr>))"

definition switch_watched :: state where
  "switch_watched = snd (Watcher_new dev 0 switch_expr ''ok ? b : c'' None False switch_data)"


text \<open>
  In a list of trace entries, \<open>pending_after b p\<close>: whether \<open>p\<close> is waiting to be run at the
  end, when \<open>b\<close> says whether it was at the beginning: \<^verbatim>\<open>update()\<close> of a Watcher that is
  neither lazy nor sync makes it pending, the beginning of its \<^verbatim>\<open>run()\<close> ends that. And
  \<open>in_order b p c\<close>: no \<^verbatim>\<open>run()\<close> of \<open>c\<close> begins while \<open>p\<close> is pending.
\<close>

fun pending_after :: "bool \<Rightarrow> wid \<Rightarrow> event list \<Rightarrow> bool" where
  "pending_after b p [] = b"
| "pending_after b p (e # es) =
     pending_after (if e = Update p then True else if e = Run p then False else b) p es"

fun in_order :: "bool \<Rightarrow> wid \<Rightarrow> wid \<Rightarrow> event list \<Rightarrow> bool" where
  "in_order b p c [] = True"
| "in_order b p c (e # es) =
     (if e = Run c then \<not> b \<and> in_order b p c es
      else in_order (if e = Update p then True else if e = Run p then False else b) p c es)"

text \<open>No Watcher is sync.\<close>

definition no_sync :: "state \<Rightarrow> bool" where
  "no_sync s = (\<forall>w. \<not> w_sync (watchers s w))"


text \<open>
  The state of a flush between two Watchers: \<open>rest\<close>, the entries of the queue still to be
  run, is in ascending order without repetition and holds exactly the Watchers marked
  pending; \<open>base\<close> is the length of the trace when the flush began, \<open>bp\<close> and \<open>bc\<close> say
  whether \<open>p\<close> and \<open>c\<close> were in the queue then.
\<close>

definition flush_inv ::
  "wid \<Rightarrow> wid \<Rightarrow> nat \<Rightarrow> bool \<Rightarrow> bool \<Rightarrow> wid list \<Rightarrow> state \<Rightarrow> bool" where
  "flush_inv p c base bp bc rest s =
     (flushing (sched s) \<and> waiting (sched s) \<and> no_sync s
      \<and> \<not> w_lazy (watchers s p) \<and> \<not> w_lazy (watchers s c)
      \<and> distinct rest \<and> sorted rest \<and> set rest = has (sched s)
      \<and> base \<le> length (trace s)
      \<and> in_order bp p c (drop base (trace s))
      \<and> (pending_after bp p (drop base (trace s)) \<longrightarrow> p \<in> set rest)
      \<and> (pending_after bc c (drop base (trace s)) \<longrightarrow> c \<in> set rest))"


text \<open>
  What writes do to a flush in progress: the flags of the Watchers stay, the scheduler is
  changed by enqueuing, no Watcher is run, and a Watcher that is not lazy and whose
  \<^verbatim>\<open>update()\<close> was called is marked pending.
\<close>

definition by_updates :: "state \<Rightarrow> state \<Rightarrow> bool" where
  "by_updates t t' =
     ((\<forall>x. w_sync (watchers t' x) = w_sync (watchers t x)
           \<and> w_lazy (watchers t' x) = w_lazy (watchers t x))
      \<and> (\<exists>ws. sched t' = fold sched_enqueue ws (sched t))
      \<and> (\<exists>es. trace t' = trace t @ es \<and> (\<forall>x. Run x \<notin> set es)
              \<and> (\<forall>x. Update x \<in> set es \<and> \<not> w_lazy (watchers t x) \<longrightarrow> x \<in> has (sched t'))))"



text \<open>
  What observing keeps of every object: its kind, its elements, whether it is extensible,
  a Vue instance or a VNode; and an object that has an Observer keeps one.
\<close>

definition shape_kept :: "state \<Rightarrow> state \<Rightarrow> bool" where
  "shape_kept s s' =
     (\<forall>x. o_kind (heap s' x) = o_kind (heap s x) \<and> o_elems (heap s' x) = o_elems (heap s x)
          \<and> o_extensible (heap s' x) = o_extensible (heap s x)
          \<and> o_isVue (heap s' x) = o_isVue (heap s x)
          \<and> o_isVNode (heap s' x) = o_isVNode (heap s x)
          \<and> (o_ob (heap s x) \<noteq> None \<longrightarrow> o_ob (heap s' x) \<noteq> None))"





section \<open>Properties\<close>

subsection \<open>Unfolding the definitions on concrete states\<close>

lemmas exec_defs =
  Watcher_get_def Watcher_evaluate_def Watcher_teardown_def Watcher_cleanupDeps_def
  Watcher_addDep_def Watcher_depend_def Dep_depend_def Dep_addSub_def Dep_removeSub_def
  pushTarget_def popTarget_def emit_def upd_watcher_def upd_vm_def upd_sched_def upd_tick_def
  upd_obj_def prop_get_def reactiveGetter_def call_getter_def isArray_def elems_of_def
  handleError_def warn_def Let_def

lemmas state_defs =
  init_def dev_def noop_cb_def empty_obj_def no_watcher_def no_component_def

lemmas observe_defs =
  numeral_eq_Suc observable_def Observer_init_def Dep_new_def count_root_def
  defineReactive_prepare_def install_def

lemmas write_defs =
  prop_set_def reactiveSetter_def self_unequal_def strict_eq_def upd_cell_def Dep_notify_def
  Watcher_update_def

lemmas sched_defs =
  queueWatcher_def nextTick_def timerFunc_def flushSchedulerQueue_def resetSchedulerState_def
  callUpdatedHooks_def callActivatedHooks_def flushCallbacks_def microtask_def
  Watcher_run_def invokeWithErrorHandling_def isObject_def MAX_UPDATE_COUNT_def loop_warning_def

subsection \<open>Equality short-circuit of the reactive setter\<close>

text \<open>
  C3: assigning to a reactive property a value strictly equal to its current value, or a
  self-unequal value (NaN) when the current value is self-unequal too, is a no-op. The
  state after the assignment is the state before it: the stored value is the same,
  nothing was observed, and the trace has no new \<open>Notify\<close> or \<open>Update\<close>.
\<close>

theorem set_equal_value_is_noop:
  assumes "map_of (o_props (heap s r)) k = Some (Reactive c)"
    and "call_getter c = Ok value"
    and "strict_eq newVal value \<or> (self_unequal newVal \<and> self_unequal value)"
  shows "prop_set en r k newVal s = (Ok (), s)"
  using assms by (simp add: prop_set_def reactiveSetter_def)

theorem set_equal_value_is_noop_witness:
  "map_of (o_props (heap (with_obj 1 (empty_obj\<lparr>o_props := [(''n'', Reactive nan_cell)]\<rparr>) init) 1)) ''n''
      = Some (Reactive nan_cell)
   \<and> call_getter nan_cell = Ok NaN
   \<and> (strict_eq NaN NaN \<or> (self_unequal NaN \<and> self_unequal NaN))
   \<and> prop_set dev 1 ''n'' NaN (with_obj 1 (empty_obj\<lparr>o_props := [(''n'', Reactive nan_cell)]\<rparr>) init)
      = (Ok (), with_obj 1 (empty_obj\<lparr>o_props := [(''n'', Reactive nan_cell)]\<rparr>) init)"
proof -
  let ?s = "with_obj 1 (empty_obj\<lparr>o_props := [(''n'', Reactive nan_cell)]\<rparr>) init"
  have a: "map_of (o_props (heap ?s 1)) ''n'' = Some (Reactive nan_cell)"
    by (simp add: with_obj_def)
  have b: "call_getter nan_cell = Ok NaN"
    by (simp add: call_getter_def nan_cell_def)
  have c: "strict_eq NaN NaN \<or> (self_unequal NaN \<and> self_unequal NaN)"
    by (simp add: self_unequal_def strict_eq_def)
  show ?thesis using a b c set_equal_value_is_noop [OF a b c, of dev] by blast
qed

subsection \<open>The public set on an instance or on root data\<close>

text \<open>
  C10: when the target is a component instance or the root data of one (its Observer has
  \<open>vmCount > 0\<close>) and the key is not in the target, \<^verbatim>\<open>set\<close> returns the value and
  leaves everything as it was: no property is added, no accessor is defined and no Dep is
  notified. A development build reports a warning, which is the only new entry of the
  trace. (An instance and root data are objects, not arrays.)
\<close>

theorem set_on_instance_or_root_data:
  assumes "is_root (heap s r)"
    and "o_kind (heap s r) \<noteq> ArrayObject"
    and "\<not> key_in (key_name key) (heap s r)"
  shows "fst (Vue_set en (Ref r) key val s) = Ok val
       \<and> snd (Vue_set en (Ref r) key val s)\<lparr>trace := trace s\<rparr> = s
       \<and> trace (snd (Vue_set en (Ref r) key val s))
           = trace s @ (if production en then [] else [Warn root_warning])"
  using assms
  by (cases "o_kind (heap s r)"; cases key)
     (auto simp: Vue_set_def is_root_def warn_def emit_def root_warning_def Let_def
        split: option.splits)

theorem set_on_instance_or_root_data_witness:
  "is_root (heap (with_obj 1 vm_obj init) 1)
   \<and> o_kind (heap (with_obj 1 vm_obj init) 1) \<noteq> ArrayObject
   \<and> \<not> key_in (key_name (Name ''extra'')) (heap (with_obj 1 vm_obj init) 1)
   \<and> fst (Vue_set dev (Ref 1) (Name ''extra'') (Num 7) (with_obj 1 vm_obj init)) = Ok (Num 7)
   \<and> snd (Vue_set dev (Ref 1) (Name ''extra'') (Num 7) (with_obj 1 vm_obj init))
        \<lparr>trace := trace (with_obj 1 vm_obj init)\<rparr> = with_obj 1 vm_obj init
   \<and> trace (snd (Vue_set dev (Ref 1) (Name ''extra'') (Num 7) (with_obj 1 vm_obj init)))
        = [Warn root_warning]"
proof -
  let ?s = "with_obj 1 vm_obj init"
  have a: "is_root (heap ?s 1)"
    by (simp add: is_root_def with_obj_def vm_obj_def)
  have b: "o_kind (heap ?s 1) \<noteq> ArrayObject"
    by (simp add: with_obj_def vm_obj_def)
  have c: "\<not> key_in (key_name (Name ''extra'')) (heap ?s 1)"
    by (simp add: key_in_def key_name_def with_obj_def vm_obj_def empty_obj_def Object_prototype_def)
  have d: "trace ?s = []" "production dev = False"
    by (simp_all add: with_obj_def init_def dev_def)
  show ?thesis
    using a b c set_on_instance_or_root_data [OF a b c, of dev "Num 7"] d by simp
qed

subsection \<open>Projections of the state after an update\<close>

lemma emit_proj [simp]:
  "heap (emit e s) = heap s"
  "dep_uid (emit e s) = dep_uid s"
  "subs (emit e s) = subs s"
  "target (emit e s) = target s"
  "targetStack (emit e s) = targetStack s"
  "uid (emit e s) = uid s"
  "watchers (emit e s) = watchers s"
  "vms (emit e s) = vms s"
  "sched (emit e s) = sched s"
  "tick (emit e s) = tick s"
  "shouldObserve (emit e s) = shouldObserve s"
  "trace (emit e s) = trace s @ [e]"
  by (simp_all add: emit_def)

lemma upd_watcher_proj [simp]:
  "heap (upd_watcher w f s) = heap s"
  "dep_uid (upd_watcher w f s) = dep_uid s"
  "subs (upd_watcher w f s) = subs s"
  "target (upd_watcher w f s) = target s"
  "targetStack (upd_watcher w f s) = targetStack s"
  "uid (upd_watcher w f s) = uid s"
  "watchers (upd_watcher w f s) = (watchers s)(w := f (watchers s w))"
  "vms (upd_watcher w f s) = vms s"
  "sched (upd_watcher w f s) = sched s"
  "tick (upd_watcher w f s) = tick s"
  "shouldObserve (upd_watcher w f s) = shouldObserve s"
  "trace (upd_watcher w f s) = trace s"
  by (simp_all add: upd_watcher_def)

lemma upd_vm_proj [simp]:
  "heap (upd_vm v f s) = heap s"
  "dep_uid (upd_vm v f s) = dep_uid s"
  "subs (upd_vm v f s) = subs s"
  "target (upd_vm v f s) = target s"
  "targetStack (upd_vm v f s) = targetStack s"
  "uid (upd_vm v f s) = uid s"
  "watchers (upd_vm v f s) = watchers s"
  "vms (upd_vm v f s) = (vms s)(v := f (vms s v))"
  "sched (upd_vm v f s) = sched s"
  "tick (upd_vm v f s) = tick s"
  "shouldObserve (upd_vm v f s) = shouldObserve s"
  "trace (upd_vm v f s) = trace s"
  by (simp_all add: upd_vm_def)

lemma upd_sched_proj [simp]:
  "heap (upd_sched f s) = heap s"
  "dep_uid (upd_sched f s) = dep_uid s"
  "subs (upd_sched f s) = subs s"
  "target (upd_sched f s) = target s"
  "targetStack (upd_sched f s) = targetStack s"
  "uid (upd_sched f s) = uid s"
  "watchers (upd_sched f s) = watchers s"
  "vms (upd_sched f s) = vms s"
  "sched (upd_sched f s) = f (sched s)"
  "tick (upd_sched f s) = tick s"
  "shouldObserve (upd_sched f s) = shouldObserve s"
  "trace (upd_sched f s) = trace s"
  by (simp_all add: upd_sched_def)

lemma upd_tick_proj [simp]:
  "heap (upd_tick f s) = heap s"
  "dep_uid (upd_tick f s) = dep_uid s"
  "subs (upd_tick f s) = subs s"
  "target (upd_tick f s) = target s"
  "targetStack (upd_tick f s) = targetStack s"
  "uid (upd_tick f s) = uid s"
  "watchers (upd_tick f s) = watchers s"
  "vms (upd_tick f s) = vms s"
  "sched (upd_tick f s) = sched s"
  "tick (upd_tick f s) = f (tick s)"
  "shouldObserve (upd_tick f s) = shouldObserve s"
  "trace (upd_tick f s) = trace s"
  by (simp_all add: upd_tick_def)

lemma upd_obj_proj [simp]:
  "heap (upd_obj r f s) = (heap s)(r := f (heap s r))"
  "dep_uid (upd_obj r f s) = dep_uid s"
  "subs (upd_obj r f s) = subs s"
  "target (upd_obj r f s) = target s"
  "targetStack (upd_obj r f s) = targetStack s"
  "uid (upd_obj r f s) = uid s"
  "watchers (upd_obj r f s) = watchers s"
  "vms (upd_obj r f s) = vms s"
  "sched (upd_obj r f s) = sched s"
  "tick (upd_obj r f s) = tick s"
  "shouldObserve (upd_obj r f s) = shouldObserve s"
  "trace (upd_obj r f s) = trace s"
  by (simp_all add: upd_obj_def)

lemma Dep_addSub_proj [simp]:
  "heap (Dep_addSub d w s) = heap s"
  "dep_uid (Dep_addSub d w s) = dep_uid s"
  "subs (Dep_addSub d w s) = (subs s)(d := subs s d @ [w])"
  "target (Dep_addSub d w s) = target s"
  "targetStack (Dep_addSub d w s) = targetStack s"
  "uid (Dep_addSub d w s) = uid s"
  "watchers (Dep_addSub d w s) = watchers s"
  "vms (Dep_addSub d w s) = vms s"
  "sched (Dep_addSub d w s) = sched s"
  "tick (Dep_addSub d w s) = tick s"
  "shouldObserve (Dep_addSub d w s) = shouldObserve s"
  "trace (Dep_addSub d w s) = trace s"
  by (simp_all add: Dep_addSub_def)

lemma Dep_removeSub_proj [simp]:
  "heap (Dep_removeSub d w s) = heap s"
  "dep_uid (Dep_removeSub d w s) = dep_uid s"
  "subs (Dep_removeSub d w s) = (subs s)(d := remove1 w (subs s d))"
  "target (Dep_removeSub d w s) = target s"
  "targetStack (Dep_removeSub d w s) = targetStack s"
  "uid (Dep_removeSub d w s) = uid s"
  "watchers (Dep_removeSub d w s) = watchers s"
  "vms (Dep_removeSub d w s) = vms s"
  "sched (Dep_removeSub d w s) = sched s"
  "tick (Dep_removeSub d w s) = tick s"
  "shouldObserve (Dep_removeSub d w s) = shouldObserve s"
  "trace (Dep_removeSub d w s) = trace s"
  by (simp_all add: Dep_removeSub_def)

lemma pushTarget_proj [simp]:
  "target (pushTarget t s) = t"
  "targetStack (pushTarget t s) = targetStack s @ [t]"
  "heap (pushTarget t s) = heap s"
  "dep_uid (pushTarget t s) = dep_uid s"
  "subs (pushTarget t s) = subs s"
  "uid (pushTarget t s) = uid s"
  "watchers (pushTarget t s) = watchers s"
  "vms (pushTarget t s) = vms s"
  "sched (pushTarget t s) = sched s"
  "tick (pushTarget t s) = tick s"
  "shouldObserve (pushTarget t s) = shouldObserve s"
  "trace (pushTarget t s) = trace s"
  by (simp_all add: pushTarget_def)

lemma popTarget_proj [simp]:
  "targetStack (popTarget s) = butlast (targetStack s)"
  "target (popTarget s) = (if butlast (targetStack s) = [] then None else last (butlast (targetStack s)))"
  "heap (popTarget s) = heap s"
  "dep_uid (popTarget s) = dep_uid s"
  "subs (popTarget s) = subs s"
  "uid (popTarget s) = uid s"
  "watchers (popTarget s) = watchers s"
  "vms (popTarget s) = vms s"
  "sched (popTarget s) = sched s"
  "tick (popTarget s) = tick s"
  "shouldObserve (popTarget s) = shouldObserve s"
  "trace (popTarget s) = trace s"
  by (simp_all add: popTarget_def Let_def)

subsection \<open>Teardown\<close>

lemma fold_removeSub_subs:
  "distinct ds \<Longrightarrow>
   subs (fold (\<lambda>d t. Dep_removeSub d w t) ds s) d
     = (if d \<in> set ds then remove1 w (subs s d) else subs s d)"
  by (induction ds arbitrary: s) auto

lemma fold_removeSub_other:
  "watchers (fold (\<lambda>d t. Dep_removeSub d w t) ds s) = watchers s
   \<and> vms (fold (\<lambda>d t. Dep_removeSub d w t) ds s) = vms s
   \<and> trace (fold (\<lambda>d t. Dep_removeSub d w t) ds s) = trace s"
  by (induction ds arbitrary: s) auto

lemma count_list_remove1:
  "count_list (remove1 w xs) w = count_list xs w - 1"
  by (induction xs) auto

lemma teardown_inactive: "\<not> w_active (watchers s w) \<Longrightarrow> Watcher_teardown w s = s"
  by (simp add: Watcher_teardown_def)

lemma teardown_active:
  assumes "w_active (watchers s w)" and "distinct (w_deps (watchers s w))"
  shows "watchers (Watcher_teardown w s) = (watchers s)(w := (watchers s w)\<lparr>w_active := False\<rparr>)"
    and "subs (Watcher_teardown w s) d
           = (if d \<in> set (w_deps (watchers s w)) then remove1 w (subs s d) else subs s d)"
    and "vms (Watcher_teardown w s)
           = (if vm_isBeingDestroyed (vms s (w_vm (watchers s w))) then vms s
              else (vms s)(w_vm (watchers s w) :=
                      (vms s (w_vm (watchers s w)))\<lparr>vm_watchers :=
                        remove1 w (vm_watchers (vms s (w_vm (watchers s w))))\<rparr>))"
    and "trace (Watcher_teardown w s) = trace s"
  using assms
  by (simp_all add: Watcher_teardown_def Let_def fold_removeSub_subs fold_removeSub_other)

lemma run_inactive:
  "\<not> w_active (watchers s w) \<Longrightarrow> Watcher_run en w s = (Ok (), emit (Run w) s)"
  by (simp add: Watcher_run_def Let_def)

subsection \<open>Collecting dependencies\<close>

lemma news_set: "set (news seen ds) = set ds - seen"
  by (induction ds arbitrary: seen) auto

lemma news_distinct: "distinct (news seen ds)"
  by (induction ds arbitrary: seen) (auto simp: news_set)

lemma news_append: "news seen (xs @ ys) = news seen xs @ news (seen \<union> set xs) ys"
  by (induction xs arbitrary: seen) (auto simp: insert_absorb)

lemma Dep_depend_frame [simp]:
  "heap (Dep_depend d s) = heap s" "target (Dep_depend d s) = target s"
  "targetStack (Dep_depend d s) = targetStack s" "vms (Dep_depend d s) = vms s"
  "sched (Dep_depend d s) = sched s" "tick (Dep_depend d s) = tick s"
  "uid (Dep_depend d s) = uid s" "dep_uid (Dep_depend d s) = dep_uid s"
  "shouldObserve (Dep_depend d s) = shouldObserve s"
  "trace (Dep_depend d s) = trace s @ [Depend d]"
  by (simp_all add: Dep_depend_def Watcher_addDep_def Let_def split: option.splits)

lemma Dep_depend_watchers:
  "watchers (Dep_depend d s) w' =
     (if target s = Some w' \<and> d \<notin> w_newDepIds (watchers s w')
      then (watchers s w')\<lparr>w_newDepIds := insert d (w_newDepIds (watchers s w')),
                            w_newDeps := w_newDeps (watchers s w') @ [d]\<rparr>
      else watchers s w')"
  by (simp add: Dep_depend_def Watcher_addDep_def Let_def split: option.splits)

lemma Dep_depend_subs:
  "subs (Dep_depend d s) d' =
     (if d' = d \<and> (\<exists>w. target s = Some w \<and> d \<notin> w_newDepIds (watchers s w)
                          \<and> d \<notin> w_depIds (watchers s w))
      then subs s d @ [the (target s)] else subs s d')"
  by (auto simp: Dep_depend_def Watcher_addDep_def Let_def split: option.splits)

lemma fold_depend_frame [simp]:
  "heap (fold Dep_depend ds s) = heap s \<and> target (fold Dep_depend ds s) = target s
   \<and> targetStack (fold Dep_depend ds s) = targetStack s \<and> vms (fold Dep_depend ds s) = vms s
   \<and> sched (fold Dep_depend ds s) = sched s \<and> tick (fold Dep_depend ds s) = tick s
   \<and> uid (fold Dep_depend ds s) = uid s \<and> dep_uid (fold Dep_depend ds s) = dep_uid s
   \<and> shouldObserve (fold Dep_depend ds s) = shouldObserve s
   \<and> trace (fold Dep_depend ds s) = trace s @ map Depend ds"
  by (induction ds arbitrary: s) auto

lemma fold_depend_other:
  "target s \<noteq> Some w' \<Longrightarrow> watchers (fold Dep_depend ds s) w' = watchers s w'"
  by (induction ds arbitrary: s) (auto simp: Dep_depend_watchers)

lemma fold_depend_watcher:
  "target s = Some w \<Longrightarrow>
   watchers (fold Dep_depend ds s) w =
     (watchers s w)\<lparr>w_newDepIds := w_newDepIds (watchers s w) \<union> set ds,
                    w_newDeps := w_newDeps (watchers s w) @ news (w_newDepIds (watchers s w)) ds\<rparr>"
proof (induction ds arbitrary: s)
  case Nil
  then show ?case by simp
next
  case (Cons d ds)
  have t: "target (Dep_depend d s) = Some w" using Cons.prems by simp
  show ?case
    using Cons.prems
    by (simp add: Cons.IH [OF t] Dep_depend_watchers insert_absorb)
qed

lemma fold_depend_subs:
  "target s = Some w \<Longrightarrow>
   subs (fold Dep_depend ds s) d =
     subs s d @ (if d \<in> set ds \<and> d \<notin> w_newDepIds (watchers s w) \<and> d \<notin> w_depIds (watchers s w)
                 then [w] else [])"
proof (induction ds arbitrary: s)
  case Nil
  then show ?case by simp
next
  case (Cons a ds)
  have t: "target (Dep_depend a s) = Some w" using Cons.prems by simp
  show ?case
    using Cons.prems
    by (auto simp: Cons.IH [OF t] Dep_depend_watchers Dep_depend_subs)
qed

lemma reads_refl [simp]: "reads s s"
  unfolding reads_def by (rule exI [of _ "[]"]) simp

lemma reads_trans: "reads s t \<Longrightarrow> reads t u \<Longrightarrow> reads s u"
  unfolding reads_def
proof -
  assume "\<exists>ds. t = fold Dep_depend ds s" and "\<exists>ds. u = fold Dep_depend ds t"
  then obtain xs ys where "t = fold Dep_depend xs s" and "u = fold Dep_depend ys t" by blast
  then have "u = fold Dep_depend (xs @ ys) s" by simp
  then show "\<exists>ds. u = fold Dep_depend ds s" by blast
qed

lemma reads_depend: "reads s t \<Longrightarrow> reads s (Dep_depend d t)"
proof -
  assume a: "reads s t"
  have "reads t (Dep_depend d t)"
    unfolding reads_def by (rule exI [of _ "[d]"]) simp
  with a show ?thesis by (rule reads_trans)
qed

lemma reads_dependArray: "reads s0 s \<Longrightarrow> reads s0 (snd (dependArray d es s))"
proof (induction d es s rule: dependArray.induct)
  case (1 es s)
  then show ?case by simp
next
  case (2 d s)
  then show ?case by simp
next
  case (3 d r es s)
  let ?s1 = "case o_ob (heap s r) of None \<Rightarrow> s | Some ob \<Rightarrow> Dep_depend (ob_dep ob) s"
  have r1: "reads s0 ?s1"
    using "3.prems" by (auto split: option.splits intro: reads_depend)
  show ?case
  proof (cases "o_kind (heap ?s1 r) = ArrayObject")
    case True
    have r2: "reads s0 (snd (dependArray d (o_elems (heap ?s1 r)) ?s1))"
      using "3.IH"(1) [OF refl True r1] .
    show ?thesis
    proof (cases "dependArray d (o_elems (heap ?s1 r)) ?s1")
      case (Pair res s2)
      with r2 have r2': "reads s0 s2" by simp
      show ?thesis
      proof (cases res)
        case (Ok u)
        with "3.IH"(2) [OF refl True Pair [symmetric]] r2' Pair True
        show ?thesis by (simp add: Let_def)
      next
        case (Threw x)
        with Pair True r2' show ?thesis by (simp add: Let_def)
      next
        case Unfinished
        with Pair True r2' show ?thesis by (simp add: Let_def)
      qed
    qed
  next
    case False
    with "3.IH"(3) [OF refl False r1] show ?thesis by (simp add: Let_def)
  qed
qed simp_all

lemma reads_reactiveGetter: "reads s0 s \<Longrightarrow> reads s0 (snd (reactiveGetter en c s))"
proof -
  assume a: "reads s0 s"
  have d: "reads s0 (snd (dependArray n es (Dep_depend y (Dep_depend x s))))" for n es x y
    using a by (intro reads_dependArray reads_depend)
  show ?thesis
    using a d
    by (auto simp: reactiveGetter_def Let_def intro: reads_depend
        split: res.splits option.splits prod.splits)
       (metis snd_conv)+
qed

lemma reads_prop_get: "reads s0 s \<Longrightarrow> reads s0 (snd (prop_get en r k s))"
  by (auto simp: prop_get_def reads_reactiveGetter
      split: option.splits property.splits accessor.splits)

lemma reads_eval: "reads s0 s \<Longrightarrow> reads s0 (snd (eval en e s))"
proof (induction e arbitrary: s)
  case (Lit v)
  then show ?case by simp
next
  case (Field e k)
  from Field.IH [OF Field.prems] show ?case
    by (cases "eval en e s")
       (auto split: res.splits jsval.splits intro: reads_prop_get)
next
  case (Elem e i)
  from Elem.IH [OF Elem.prems] show ?case
    by (cases "eval en e s") (auto split: res.splits jsval.splits)
next
  case (Plus a b)
  from Plus.IH(1) [OF Plus.prems] have ra: "reads s0 (snd (eval en a s))" .
  show ?case
  proof (cases "eval en a s")
    case (Pair ra' s1)
    with ra have r1: "reads s0 s1" by simp
    from Plus.IH(2) [OF r1] r1 Pair show ?thesis
      by (cases "eval en b s1") (auto split: res.splits)
  qed
next
  case (Cond c a b)
  from Cond.IH(1) [OF Cond.prems] have rc: "reads s0 (snd (eval en c s))" .
  show ?case
  proof (cases "eval en c s")
    case (Pair rc' s1)
    with rc have r1: "reads s0 s1" by simp
    from Cond.IH(2) [OF r1] Cond.IH(3) [OF r1] r1 Pair show ?thesis
      by (auto split: res.splits)
  qed
next
  case (Throw x)
  then show ?case by simp
qed

lemma reads_traverse:
  "reads s0 s \<Longrightarrow> reads s0 (snd (traverse en d v s))"
  "reads s0 s \<Longrightarrow> reads s0 (snd (traverse_keys en d r ks s))"
  "reads s0 s \<Longrightarrow> reads s0 (snd (traverse_elems en d es s))"
proof (induction en d v s and en d r ks s and en d es s
       rule: traverse_traverse_keys_traverse_elems.induct)
  case (5 en d r k ks s)
  have r1: "reads s0 (snd (prop_get en r k s))"
    using "5.prems" by (rule reads_prop_get)
  show ?case
  proof (cases "prop_get en r k s")
    case (Pair res s1)
    with r1 have r1': "reads s0 s1" by simp
    show ?thesis
    proof (cases res)
      case (Ok v)
      have r2: "reads s0 (snd (traverse en d v s1))"
        using "5.IH"(1) [OF Pair [symmetric] Ok r1'] .
      show ?thesis
      proof (cases "traverse en d v s1")
        case (Pair res2 s2)
        note P2 = this
        with r2 have r2': "reads s0 s2" by simp
        show ?thesis
        proof (cases res2)
          case (Ok u)
          from "5.IH"(2) [OF \<open>prop_get en r k s = (res, s1)\<close> [symmetric] \<open>res = Ok v\<close>
              P2 [symmetric] Ok r2']
          show ?thesis using \<open>prop_get en r k s = (res, s1)\<close> \<open>res = Ok v\<close> P2 Ok by simp
        next
          case (Threw x)
          then show ?thesis
            using \<open>prop_get en r k s = (res, s1)\<close> \<open>res = Ok v\<close> P2 r2' by simp
        next
          case Unfinished
          then show ?thesis
            using \<open>prop_get en r k s = (res, s1)\<close> \<open>res = Ok v\<close> P2 r2' by simp
        qed
      qed
    next
      case (Threw x)
      with Pair r1' show ?thesis by simp
    next
      case Unfinished
      with Pair r1' show ?thesis by simp
    qed
  qed
next
  case (7 en d e es s)
  have r1: "reads s0 (snd (traverse en d e s))"
    using "7.IH"(1) [OF "7.prems"] .
  show ?case
  proof (cases "traverse en d e s")
    case (Pair res s1)
    with r1 have r1': "reads s0 s1" by simp
    show ?thesis
    proof (cases res)
      case (Ok u)
      from "7.IH"(2) [OF Pair [symmetric] Ok r1'] Pair Ok show ?thesis by simp
    next
      case (Threw x)
      with Pair r1' show ?thesis by simp
    next
      case Unfinished
      with Pair r1' show ?thesis by simp
    qed
  qed
qed (auto)

lemma dependArray_finishes: "fst (dependArray d es s) \<noteq> Unfinished"
  by (induction d es s rule: dependArray.induct)
     (auto simp: Let_def split: prod.splits res.splits)

lemma reactiveGetter_finishes: "fst (reactiveGetter en c s) \<noteq> Unfinished"
  using dependArray_finishes
  by (auto simp: reactiveGetter_def call_getter_def Let_def
      split: res.splits option.splits prod.splits accessor.splits)
     (metis fst_conv)+

lemma prop_get_finishes: "fst (prop_get en r k s) \<noteq> Unfinished"
  by (auto simp: prop_get_def reactiveGetter_finishes
      split: option.splits property.splits accessor.splits)

lemma eval_finishes: "fst (eval en e s) \<noteq> Unfinished"
proof (induction e arbitrary: s)
  case (Field e k)
  show ?case
    using Field.IH [of s] prop_get_finishes
    by (cases "eval en e s") (auto split: res.splits jsval.splits)
next
  case (Elem e i)
  show ?case
    using Elem.IH [of s]
    by (cases "eval en e s") (auto split: res.splits jsval.splits)
next
  case (Plus a b)
  show ?case
  proof (cases "eval en a s")
    case (Pair ra s1)
    with Plus.IH(1) [of s] Plus.IH(2) [of s1] show ?thesis
      by (cases "eval en b s1") (auto split: res.splits)
  qed
next
  case (Cond c a b)
  show ?case
  proof (cases "eval en c s")
    case (Pair rc s1)
    with Cond.IH(1) [of s] Cond.IH(2) [of s1] Cond.IH(3) [of s1] show ?thesis
      by (auto split: res.splits)
  qed
qed simp_all

lemma traverse_finishes:
  "fst (traverse en d v s) \<noteq> Unfinished"
  "fst (traverse_keys en d r ks s) \<noteq> Unfinished"
  "fst (traverse_elems en d es s) \<noteq> Unfinished"
proof (induction en d v s and en d r ks s and en d es s
       rule: traverse_traverse_keys_traverse_elems.induct)
  case (5 en d r k ks s)
  show ?case
  proof (cases "prop_get en r k s")
    case (Pair res s1)
    note P1 = this
    show ?thesis
    proof (cases res)
      case (Ok v)
      note O1 = this
      show ?thesis
      proof (cases "traverse en d v s1")
        case (Pair res2 s2)
        show ?thesis
          using "5.IH"(1) [OF P1 [symmetric] O1] "5.IH"(2) [OF P1 [symmetric] O1 Pair [symmetric]]
            P1 O1 Pair
          by (cases res2) auto
      qed
    next
      case (Threw x)
      with P1 show ?thesis by simp
    next
      case Unfinished
      with P1 prop_get_finishes [of en r k s] show ?thesis by simp
    qed
  qed
next
  case (7 en d e es s)
  show ?case
  proof (cases "traverse en d e s")
    case (Pair res s1)
    show ?thesis
      using "7.IH"(1) "7.IH"(2) [OF Pair [symmetric]] Pair
      by (cases res) auto
  qed
qed auto

lemma fold_cond_removeSub_subs:
  "distinct ds \<Longrightarrow>
   subs (fold (\<lambda>d t. if P d then Dep_removeSub d w t else t) ds s) d
     = (if d \<in> set ds \<and> P d then remove1 w (subs s d) else subs s d)"
  by (induction ds arbitrary: s) auto

lemma fold_cond_removeSub_other:
  "heap (fold (\<lambda>d t. if P d then Dep_removeSub d w t else t) ds s) = heap s
   \<and> target (fold (\<lambda>d t. if P d then Dep_removeSub d w t else t) ds s) = target s
   \<and> targetStack (fold (\<lambda>d t. if P d then Dep_removeSub d w t else t) ds s) = targetStack s
   \<and> watchers (fold (\<lambda>d t. if P d then Dep_removeSub d w t else t) ds s) = watchers s
   \<and> vms (fold (\<lambda>d t. if P d then Dep_removeSub d w t else t) ds s) = vms s
   \<and> sched (fold (\<lambda>d t. if P d then Dep_removeSub d w t else t) ds s) = sched s
   \<and> tick (fold (\<lambda>d t. if P d then Dep_removeSub d w t else t) ds s) = tick s
   \<and> uid (fold (\<lambda>d t. if P d then Dep_removeSub d w t else t) ds s) = uid s
   \<and> dep_uid (fold (\<lambda>d t. if P d then Dep_removeSub d w t else t) ds s) = dep_uid s
   \<and> shouldObserve (fold (\<lambda>d t. if P d then Dep_removeSub d w t else t) ds s) = shouldObserve s
   \<and> trace (fold (\<lambda>d t. if P d then Dep_removeSub d w t else t) ds s) = trace s"
  by (induction ds arbitrary: s) auto

lemma cleanupDeps_proj:
  "heap (Watcher_cleanupDeps w s) = heap s"
  "target (Watcher_cleanupDeps w s) = target s"
  "targetStack (Watcher_cleanupDeps w s) = targetStack s"
  "vms (Watcher_cleanupDeps w s) = vms s"
  "sched (Watcher_cleanupDeps w s) = sched s"
  "tick (Watcher_cleanupDeps w s) = tick s"
  "uid (Watcher_cleanupDeps w s) = uid s"
  "dep_uid (Watcher_cleanupDeps w s) = dep_uid s"
  "shouldObserve (Watcher_cleanupDeps w s) = shouldObserve s"
  "trace (Watcher_cleanupDeps w s) = trace s"
  "watchers (Watcher_cleanupDeps w s) =
     (watchers s)(w := (watchers s w)\<lparr>w_depIds := w_newDepIds (watchers s w), w_newDepIds := {},
                       w_deps := w_newDeps (watchers s w), w_newDeps := []\<rparr>)"
  by (simp_all add: Watcher_cleanupDeps_def Let_def fold_cond_removeSub_other)

lemma cleanupDeps_subs:
  "distinct (w_deps (watchers s w)) \<Longrightarrow>
   subs (Watcher_cleanupDeps w s) d =
     (if d \<in> set (w_deps (watchers s w)) \<and> d \<notin> w_newDepIds (watchers s w)
      then remove1 w (subs s d) else subs s d)"
  by (simp add: Watcher_cleanupDeps_def Let_def fold_cond_removeSub_subs)

lemma fold_emit_proj [simp]:
  "trace (fold emit hs s) = trace s @ hs"
  "heap (fold emit hs s) = heap s" "target (fold emit hs s) = target s"
  "targetStack (fold emit hs s) = targetStack s" "vms (fold emit hs s) = vms s"
  "sched (fold emit hs s) = sched s" "tick (fold emit hs s) = tick s"
  "uid (fold emit hs s) = uid s" "dep_uid (fold emit hs s) = dep_uid s"
  "shouldObserve (fold emit hs s) = shouldObserve s"
  "watchers (fold emit hs s) = watchers s" "subs (fold emit hs s) = subs s"
  by (induction hs arbitrary: s) simp_all

text \<open>
  The shape of \<^verbatim>\<open>Watcher.get\<close>: the state before the \<^verbatim>\<open>finally\<close> block pops the
  target is reached by the reads of the getter, at most one report to the error handler,
  and the reads of the deep traversal. Then either the target is popped and the
  generations are reconciled, or the traversal of a deep Watcher threw and nothing more
  was done.
\<close>

lemma get_shape:
  assumes "Watcher_get en w s = (r, s')"
  shows "\<exists>ds1 ds2 hs s4.
      s4 = fold Dep_depend ds2 (fold emit hs (fold Dep_depend ds1
             (emit (Getter w) (pushTarget (Some w) s))))
      \<and> concat (map dep_of hs) = []
      \<and> (hs = [] \<or> (\<exists>x info. hs = [HandleError x info]))
      \<and> r \<noteq> Unfinished
      \<and> (s' = Watcher_cleanupDeps w (popTarget s4)
          \<or> (s' = s4 \<and> w_deep (watchers s w) \<and> (\<exists>x. r = Threw x)))"
proof -
  let ?s1 = "emit (Getter w) (pushTarget (Some w) s)"
  have t1: "target ?s1 = Some w" by simp
  obtain r2 s2 where ev: "eval en (w_getter (watchers s w)) ?s1 = (r2, s2)"
    by (cases "eval en (w_getter (watchers s w)) ?s1")
  have "reads ?s1 (snd (eval en (w_getter (watchers s w)) ?s1))"
    by (rule reads_eval) simp
  then have "reads ?s1 s2" using ev by simp
  then obtain ds1 where s2: "s2 = fold Dep_depend ds1 ?s1" by (auto simp: reads_def)
  have nu: "r2 \<noteq> Unfinished"
    using eval_finishes [of en "w_getter (watchers s w)" ?s1] ev by simp
  have w2: "watchers s2 w = (watchers s w)\<lparr>w_newDepIds := w_newDepIds (watchers s w) \<union> set ds1,
                    w_newDeps := w_newDeps (watchers s w) @ news (w_newDepIds (watchers s w)) ds1\<rparr>"
    unfolding s2 by (simp add: fold_depend_watcher [OF t1])
  define hs where "hs = (case r2 of Threw x \<Rightarrow>
       if w_user (watchers s w)
       then [HandleError x (''getter for watcher '' @ w_expression (watchers s w))] else []
     | _ \<Rightarrow> [])"
  define gv where "gv = (case r2 of Ok v \<Rightarrow> v | _ \<Rightarrow> Undefined)"
  define thrown where "thrown = (case r2 of Threw x \<Rightarrow>
       if w_user (watchers s w) then None else Some x | _ \<Rightarrow> None)"
  let ?s3 = "fold emit hs s2"
  have mid: "(case r2 of
               Ok v \<Rightarrow> (v, None, s2)
             | Threw x \<Rightarrow>
                 if w_user (watchers s2 w)
                 then (Undefined, None,
                       handleError x (''getter for watcher '' @ w_expression (watchers s2 w)) s2)
                 else (Undefined, Some x, s2)) = (gv, thrown, ?s3)"
    using nu by (cases r2) (simp_all add: hs_def gv_def thrown_def w2 handleError_def)
  have hs: "concat (map dep_of hs) = []"
    by (cases r2) (simp_all add: hs_def dep_of_def)
  have hs': "hs = [] \<or> (\<exists>x info. hs = [HandleError x info])"
    by (cases r2) (simp_all add: hs_def)
  have w3: "w_deep (watchers s2 w) = w_deep (watchers s w)"
    by (simp add: w2)
  obtain t s4 where tr: "(if w_deep (watchers s w) then traverse en (stack_limit en) gv ?s3
                     else (Ok (), ?s3)) = (t, s4)"
    by (cases "if w_deep (watchers s w) then traverse en (stack_limit en) gv ?s3
                     else (Ok (), ?s3)")
  have "reads ?s3 (snd (traverse en (stack_limit en) gv ?s3))"
    by (rule reads_traverse) simp
  then have "reads ?s3 s4"
    using tr by (auto split: if_splits)
  then obtain ds2 where s4: "s4 = fold Dep_depend ds2 ?s3" by (auto simp: reads_def)
  have tu: "t \<noteq> Unfinished"
    using tr traverse_finishes(1) [of en "stack_limit en" gv ?s3]
    by (auto split: if_splits)
  have deepthrow: "w_deep (watchers s w)" if "t = Threw x" for x
    using tr that by (auto split: if_splits)
  have get: "Watcher_get en w s =
     (case t of
           Threw x \<Rightarrow> (Threw x, s4)
         | Unfinished \<Rightarrow> (Unfinished, s4)
         | Ok u \<Rightarrow>
             let s5 = Watcher_cleanupDeps w (popTarget s4)
             in (case thrown of Some x \<Rightarrow> (Threw x, s5) | None \<Rightarrow> (Ok gv, s5)))"
    unfolding Watcher_get_def using nu tr
    by (auto simp add: Let_def ev mid w3 split: if_splits)
  show ?thesis
  proof (cases t)
    case (Ok u)
    then have "s' = Watcher_cleanupDeps w (popTarget s4)" and "r \<noteq> Unfinished"
      using assms get by (auto simp: Let_def split: option.splits)
    then show ?thesis using s4 s2 hs hs' by blast
  next
    case (Threw x)
    then have "s' = s4" "r = Threw x" using assms get by auto
    then show ?thesis using s4 s2 hs hs' deepthrow [OF Threw] by blast
  next
    case Unfinished
    then show ?thesis using tu by simp
  qed
qed

lemma dep_of_simps [simp]:
  "dep_of (Depend d) = [d]" "dep_of (Notify d) = []" "dep_of (Update w) = []"
  "dep_of (Run w) = []" "dep_of (Getter w) = []" "dep_of (Before w) = []"
  "dep_of (Callback w v old) = []" "dep_of (HandleError x info) = []"
  "dep_of (Warn msg) = []" "dep_of (Hook r h) = []" "dep_of (Tick n) = []"
  by (simp_all add: dep_of_def)

lemma dep_of_Depend [simp]: "concat (map (dep_of \<circ> Depend) ds) = ds"
  by (induction ds) simp_all

lemma collected:
  assumes "s4 = fold Dep_depend ds2 (fold emit hs (fold Dep_depend ds1
             (emit (Getter w) (pushTarget (Some w) s))))"
    and "concat (map dep_of hs) = []"
  shows "read_deps s s4 = ds1 @ ds2"
    and "targetStack s4 = targetStack s @ [Some w]"
    and "w' \<noteq> w \<Longrightarrow> watchers s4 w' = watchers s w'"
    and "watchers s4 w = (watchers s w)\<lparr>
           w_newDepIds := w_newDepIds (watchers s w) \<union> set (ds1 @ ds2),
           w_newDeps := w_newDeps (watchers s w) @ news (w_newDepIds (watchers s w)) (ds1 @ ds2)\<rparr>"
    and "subs s4 d = subs s d @
           (if d \<in> set (ds1 @ ds2) \<and> d \<notin> w_newDepIds (watchers s w)
               \<and> d \<notin> w_depIds (watchers s w) then [w] else [])"
    and "heap s4 = heap s" and "vms s4 = vms s" and "sched s4 = sched s" and "tick s4 = tick s"
    and "uid s4 = uid s" and "dep_uid s4 = dep_uid s" and "shouldObserve s4 = shouldObserve s"
proof -
  let ?s1 = "emit (Getter w) (pushTarget (Some w) s)"
  let ?s2 = "fold Dep_depend ds1 ?s1"
  let ?s3 = "fold emit hs ?s2"
  have t1: "target ?s1 = Some w" by simp
  have t3: "target ?s3 = Some w" by simp
  have w2: "watchers ?s3 w = (watchers s w)\<lparr>
           w_newDepIds := w_newDepIds (watchers s w) \<union> set ds1,
           w_newDeps := w_newDeps (watchers s w) @ news (w_newDepIds (watchers s w)) ds1\<rparr>"
    by (simp add: fold_depend_watcher [OF t1])
  show "read_deps s s4 = ds1 @ ds2"
    using assms by (simp add: read_deps_def)
  show "targetStack s4 = targetStack s @ [Some w]"
    using assms by simp
  show "watchers s4 w' = watchers s w'" if "w' \<noteq> w"
    using assms that by (simp add: fold_depend_other)
  show "watchers s4 w = (watchers s w)\<lparr>
           w_newDepIds := w_newDepIds (watchers s w) \<union> set (ds1 @ ds2),
           w_newDeps := w_newDeps (watchers s w) @ news (w_newDepIds (watchers s w)) (ds1 @ ds2)\<rparr>"
    unfolding assms(1) fold_depend_watcher [OF t3] w2
    by (simp add: news_append Un_assoc)
  show "subs s4 d = subs s d @
           (if d \<in> set (ds1 @ ds2) \<and> d \<notin> w_newDepIds (watchers s w)
               \<and> d \<notin> w_depIds (watchers s w) then [w] else [])"
    unfolding assms(1) fold_depend_subs [OF t3] w2
    by (auto simp: fold_depend_subs [OF t1])
  show "heap s4 = heap s" "vms s4 = vms s" "sched s4 = sched s" "tick s4 = tick s"
    "uid s4 = uid s" "dep_uid s4 = dep_uid s" "shouldObserve s4 = shouldObserve s"
    using assms by simp_all
qed

text \<open>
  What a reconciled evaluation leaves: the new generation becomes the current one, the
  Watcher is removed from the old Deps it did not read, and the target stack is as before.
\<close>

lemma get_reconciled:
  assumes "Watcher_get en w s = (r, s')"
    and "\<not> w_deep (watchers s w) \<or> (\<exists>v. r = Ok v)"
    and "distinct (w_deps (watchers s w))"
  shows "targetStack s' = targetStack s"
    and "target s' = (if targetStack s = [] then None else last (targetStack s))"
    and "w' \<noteq> w \<Longrightarrow> watchers s' w' = watchers s w'"
    and "watchers s' w = (watchers s w)\<lparr>
           w_depIds := w_newDepIds (watchers s w) \<union> set (read_deps s s'),
           w_newDepIds := {},
           w_deps := w_newDeps (watchers s w) @ news (w_newDepIds (watchers s w)) (read_deps s s'),
           w_newDeps := []\<rparr>"
    and "subs s' d =
           (if d \<in> set (w_deps (watchers s w)) \<and> d \<notin> w_newDepIds (watchers s w)
               \<and> d \<notin> set (read_deps s s')
            then remove1 w (subs s d)
            else subs s d @
              (if d \<in> set (read_deps s s') \<and> d \<notin> w_newDepIds (watchers s w)
                  \<and> d \<notin> w_depIds (watchers s w) then [w] else []))"
    and "heap s' = heap s" and "vms s' = vms s" and "sched s' = sched s" and "tick s' = tick s"
    and "uid s' = uid s" and "dep_uid s' = dep_uid s" and "shouldObserve s' = shouldObserve s"
proof -
  from get_shape [OF assms(1)] assms(2)
  obtain ds1 ds2 hs s4 where
    s4: "s4 = fold Dep_depend ds2 (fold emit hs (fold Dep_depend ds1
             (emit (Getter w) (pushTarget (Some w) s))))"
    and hs: "concat (map dep_of hs) = []"
    and s': "s' = Watcher_cleanupDeps w (popTarget s4)"
    by auto
  note c = collected [OF s4 hs]
  have tr: "trace s' = trace s4" by (simp add: s' cleanupDeps_proj)
  have rd: "read_deps s s' = ds1 @ ds2"
    using c(1) by (simp add: read_deps_def tr)
  have dd: "distinct (w_deps (watchers (popTarget s4) w))"
    using assms(3) by (simp add: c(4))
  show "targetStack s' = targetStack s"
    by (simp add: s' cleanupDeps_proj c(2))
  show "target s' = (if targetStack s = [] then None else last (targetStack s))"
    by (simp add: s' cleanupDeps_proj c(2))
  show "watchers s' w' = watchers s w'" if "w' \<noteq> w"
    using that by (simp add: s' cleanupDeps_proj c(3))
  show "watchers s' w = (watchers s w)\<lparr>
           w_depIds := w_newDepIds (watchers s w) \<union> set (read_deps s s'),
           w_newDepIds := {},
           w_deps := w_newDeps (watchers s w) @ news (w_newDepIds (watchers s w)) (read_deps s s'),
           w_newDeps := []\<rparr>"
    by (simp add: s' cleanupDeps_proj c(4) rd [unfolded s'])
  show "subs s' d =
           (if d \<in> set (w_deps (watchers s w)) \<and> d \<notin> w_newDepIds (watchers s w)
               \<and> d \<notin> set (read_deps s s')
            then remove1 w (subs s d)
            else subs s d @
              (if d \<in> set (read_deps s s') \<and> d \<notin> w_newDepIds (watchers s w)
                  \<and> d \<notin> w_depIds (watchers s w) then [w] else []))"
    unfolding rd unfolding s' cleanupDeps_subs [OF dd]
    by (auto simp: c(4) c(5))
  show "heap s' = heap s" "vms s' = vms s" "sched s' = sched s" "tick s' = tick s"
    "uid s' = uid s" "dep_uid s' = dep_uid s" "shouldObserve s' = shouldObserve s"
    by (simp_all add: s' cleanupDeps_proj c)
qed


subsection \<open>What observing leaves alone\<close>

lemma heap_only_refl [simp]: "heap_only s s"
  by (simp add: heap_only_def)

lemma heap_only_trans: "heap_only s t \<Longrightarrow> heap_only t u \<Longrightarrow> heap_only s u"
proof -
  assume a: "heap_only s t" and b: "heap_only t u"
  have "subs u d = subs s d \<or> (dep_uid s \<le> d \<and> subs u d = [])" for d
    using a b unfolding heap_only_def by (metis le_trans)
  moreover have "dep_uid s \<le> dep_uid u"
    using a b unfolding heap_only_def by simp
  ultimately show ?thesis
    using a b unfolding heap_only_def by simp
qed

lemma heap_only_upd_obj [simp]: "heap_only s (upd_obj r f s)"
  by (simp add: heap_only_def)

lemma heap_only_Dep_new [simp]: "heap_only s (snd (Dep_new s))"
  by (simp add: heap_only_def Dep_new_def)

lemma heap_only_Observer_init [simp]: "heap_only s (snd (Observer_init r s))"
  by (simp add: heap_only_def Observer_init_def Dep_new_def Let_def)

lemma heap_only_count_root: "heap_only s t \<Longrightarrow> heap_only s (count_root a r t)"
  by (simp add: heap_only_def count_root_def)

lemma heap_only_install: "heap_only s t \<Longrightarrow> heap_only s (install r k c t)"
  by (simp add: heap_only_def install_def)

lemma observe_heap_only:
  "heap_only s (snd (observe en d v a s))"
  "heap_only s (snd (walk en d r ks s))"
  "heap_only s (snd (observeArray en d es s))"
  "heap_only s (snd (defineReactive en d r k va cs sh s))"
proof (induction en d v a s and en d r ks s and en d es s and en d r k va cs sh s
       rule: observe_walk_observeArray_defineReactive.induct)
  case (1 en v asRootData s)
  then show ?case by simp
next
  case (2 en d r asRootData s)
  show ?case
  proof (cases "o_isVNode (heap s r) \<or> o_ob (heap s r) \<noteq> None \<or> \<not> observable en s r")
    case True
    then show ?thesis by (auto simp: heap_only_count_root)
  next
    case False
    let ?s1 = "snd (Observer_init r s)"
    have a: "heap_only s ?s1" by simp
    show ?thesis
    proof (cases "o_kind (heap s r) = ArrayObject")
      case True
      have "heap_only ?s1 (snd (observeArray en d (o_elems (heap s r)) ?s1))"
        using 2(1) False True by simp
      then have "heap_only s (snd (observeArray en d (o_elems (heap s r)) ?s1))"
        using a heap_only_trans by blast
      then show ?thesis using False True
        by (auto simp: heap_only_count_root split: prod.splits res.splits)
    next
      case k: False
      have "heap_only ?s1 (snd (walk en d r (map fst (o_props (heap s r))) ?s1))"
        using 2(2) False k by simp
      then have "heap_only s (snd (walk en d r (map fst (o_props (heap s r))) ?s1))"
        using a heap_only_trans by blast
      then show ?thesis using False k
        by (auto simp: heap_only_count_root split: prod.splits res.splits)
    qed
  qed
next
  case (5 en d r k ks s)
  obtain x s1 where e: "defineReactive en d r k None False False s = (x, s1)"
    by (cases "defineReactive en d r k None False False s")
  have a: "heap_only s s1" using 5(1) e by simp
  show ?case
  proof (cases x)
    case (Ok u)
    then have "heap_only s1 (snd (walk en d r ks s1))" using 5(2) e by simp
    then show ?thesis using a e Ok heap_only_trans by auto
  qed (use a e in simp_all)
next
  case (7 en d e es s)
  obtain x s1 where o: "observe en d e False s = (x, s1)"
    by (cases "observe en d e False s")
  have a: "heap_only s s1" using 7(1) o by simp
  show ?case
  proof (cases x)
    case (Ok u)
    then have "heap_only s1 (snd (observeArray en d es s1))" using 7(2) o by simp
    then show ?thesis using a o Ok heap_only_trans by auto
  qed (use a o in simp_all)
next
  case (8 en d r k valarg customSetter shallow s)
  let ?s0 = "snd (Dep_new s)"
  have a: "heap_only s ?s0" by simp
  show ?case
  proof (cases "defineReactive_prepare (map_of (o_props (heap s r)) k) valarg")
    case (Leave x)
    then show ?thesis by simp
  next
    case (Proceed getter setter val)
    show ?thesis
    proof (cases shallow)
      case True
      then show ?thesis using Proceed a by (simp add: heap_only_install)
    next
      case False
      have "heap_only ?s0 (snd (observe en d val False ?s0))"
        using 8 Proceed False by simp
      then have "heap_only s (snd (observe en d val False ?s0))"
        using a heap_only_trans by blast
      then show ?thesis using Proceed False
        by (auto simp: heap_only_install split: prod.splits res.splits)
    qed
  qed
qed simp_all

subsection \<open>The bookkeeping of a Watcher is kept by the code\<close>

lemma count_list_remove1_other: "w' \<noteq> w \<Longrightarrow> count_list (remove1 w xs) w' = count_list xs w'"
  by (induction xs) auto

lemma fold_cond_removeSub_count:
  "w' \<noteq> w \<Longrightarrow>
   count_list (subs (fold (\<lambda>d t. if P d then Dep_removeSub d w t else t) ds s) d) w'
     = count_list (subs s d) w'"
  by (induction ds arbitrary: s) (auto simp: count_list_remove1_other)

lemma fold_cond_removeSub_set:
  "set (subs (fold (\<lambda>d t. if P d then Dep_removeSub d w t else t) ds s) d) \<subseteq> set (subs s d)"
proof (induction ds arbitrary: s)
  case Nil
  then show ?case by simp
next
  case (Cons a ds)
  have "set (subs (if P a then Dep_removeSub a w s else s) d) \<subseteq> set (subs s d)"
    using set_remove1_subset [of w "subs s a"] by auto
  with Cons [of "if P a then Dep_removeSub a w s else s"] show ?case by auto
qed

lemma get_frame:
  assumes "Watcher_get en w s = (r, s')"
  shows "vms s' = vms s" and "uid s' = uid s" and "heap s' = heap s" and "sched s' = sched s"
    and "tick s' = tick s" and "dep_uid s' = dep_uid s"
    and "w' \<noteq> w \<Longrightarrow> watchers s' w' = watchers s w'"
    and "w' \<noteq> w \<Longrightarrow> count_list (subs s' d) w' = count_list (subs s d) w'"
    and "set (subs s' d) \<subseteq> insert w (set (subs s d))"
    and "w_active (watchers s' w) = w_active (watchers s w)"
    and "w_lazy (watchers s' w) = w_lazy (watchers s w)"
    and "w_sync (watchers s' w) = w_sync (watchers s w)"
    and "w_vm (watchers s' w) = w_vm (watchers s w)"
proof -
  from get_shape [OF assms]
  obtain ds1 ds2 hs s4 where
    s4: "s4 = fold Dep_depend ds2 (fold emit hs (fold Dep_depend ds1
             (emit (Getter w) (pushTarget (Some w) s))))"
    and hs: "concat (map dep_of hs) = []"
    and s': "s' = Watcher_cleanupDeps w (popTarget s4) \<or> s' = s4"
    by blast
  note c = collected [OF s4 hs]
  have sub4: "set (subs s4 d) \<subseteq> insert w (set (subs s d))"
    by (auto simp: c(5))
  have cnt4: "count_list (subs s4 d) w' = count_list (subs s d) w'" if "w' \<noteq> w"
    using that by (simp add: c(5))
  have subc: "set (subs (Watcher_cleanupDeps w (popTarget s4)) d) \<subseteq> set (subs s4 d)"
    using fold_cond_removeSub_set [of _ w _ "popTarget s4" d]
    by (simp add: Watcher_cleanupDeps_def Let_def)
  have cntc: "count_list (subs (Watcher_cleanupDeps w (popTarget s4)) d) w'
                = count_list (subs s4 d) w'" if "w' \<noteq> w"
    using that by (simp add: Watcher_cleanupDeps_def Let_def fold_cond_removeSub_count)
  from s' show "vms s' = vms s" "uid s' = uid s" "heap s' = heap s" "sched s' = sched s"
    "tick s' = tick s" "dep_uid s' = dep_uid s"
    by (auto simp: cleanupDeps_proj c)
  from s' show "watchers s' w' = watchers s w'" if "w' \<noteq> w"
    using that by (auto simp: cleanupDeps_proj c(3))
  from s' show "count_list (subs s' d) w' = count_list (subs s d) w'" if "w' \<noteq> w"
    using that cnt4 cntc by auto
  from s' show "set (subs s' d) \<subseteq> insert w (set (subs s d))"
    using sub4 subc by auto
  from s' show "w_active (watchers s' w) = w_active (watchers s w)"
    "w_lazy (watchers s' w) = w_lazy (watchers s w)"
    "w_sync (watchers s' w) = w_sync (watchers s w)"
    "w_vm (watchers s' w) = w_vm (watchers s w)"
    by (auto simp: cleanupDeps_proj c(4))
qed

text \<open>
  An evaluation that reaches the reconciliation leaves the bookkeeping of its Watcher
  consistent; any evaluation leaves that of every other Watcher as it was.
\<close>

lemma get_keeps_wf:
  assumes "wf_watcher s w" and "Watcher_get en w s = (r, s')"
    and "\<not> w_deep (watchers s w) \<or> (\<exists>v. r = Ok v)"
  shows "wf_watcher s' w"
proof -
  have d: "distinct (w_deps (watchers s w))"
    and n: "w_newDepIds (watchers s w) = {}" "w_newDeps (watchers s w) = []"
    and i: "w_depIds (watchers s w) = set (w_deps (watchers s w))"
    and c: "\<And>d. count_list (subs s d) w = (if d \<in> set (w_deps (watchers s w)) then 1 else 0)"
    using assms(1) by (simp_all add: wf_watcher_def)
  note g = get_reconciled [OF assms(2) assms(3) d]
  have cnt: "count_list (subs s' d) w = (if d \<in> set (read_deps s s') then 1 else 0)" for d
    by (simp add: g(5) n i c count_list_remove1)
  show ?thesis
    unfolding wf_watcher_def using cnt
    by (simp add: g(4) n news_distinct news_set)
qed

lemma get_keeps_wf_other:
  assumes "wf_watcher s w'" and "w' \<noteq> w"
  shows "wf_watcher (snd (Watcher_get en w s)) w'"
proof -
  obtain r s' where g: "Watcher_get en w s = (r, s')" by (cases "Watcher_get en w s")
  note f = get_frame [OF g]
  show ?thesis
    using assms by (simp add: g wf_watcher_def f(7) [OF assms(2)] f(8) [OF assms(2)])
qed

lemma get_keeps_fresh:
  assumes "ids_fresh s" and "w \<le> uid s"
  shows "ids_fresh (snd (Watcher_get en w s))"
proof -
  obtain r s' where g: "Watcher_get en w s = (r, s')" by (cases "Watcher_get en w s")
  note f = get_frame [OF g]
  show ?thesis
    using assms f(9) by (fastforce simp: g ids_fresh_def f(1) f(2))
qed

text \<open>
  The constructor: the new Watcher has the next id, is active and listed once by its
  instance; when the constructor returns, the bookkeeping of the new Watcher is consistent;
  that of the Watchers constructed before is as it was.
\<close>

lemma Watcher_new_fresh:
  assumes "ids_fresh s"
  shows "ids_fresh (snd (Watcher_new en v fn src opts rw s))"
proof -
  let ?w = "uid s + 1"
  let ?s1 = "if rw then upd_vm v (\<lambda>c. c\<lparr>vm_watcher := Some ?w\<rparr>) s else s"
  let ?s2 = "upd_vm v (\<lambda>c. c\<lparr>vm_watchers := vm_watchers c @ [?w]\<rparr>) ?s1"
  define W where "W = \<lparr>w_vm = v,
               w_deep = (case opts of None \<Rightarrow> False | Some opt \<Rightarrow> opt_deep opt),
               w_user = (case opts of None \<Rightarrow> False | Some opt \<Rightarrow> opt_user opt),
               w_lazy = (case opts of None \<Rightarrow> False | Some opt \<Rightarrow> opt_lazy opt),
               w_sync = (case opts of None \<Rightarrow> False | Some opt \<Rightarrow> opt_sync opt),
               w_before = (case opts of None \<Rightarrow> False | Some opt \<Rightarrow> opt_before opt),
               w_dirty = (case opts of None \<Rightarrow> False | Some opt \<Rightarrow> opt_lazy opt),
               w_active = True, w_deps = [], w_newDeps = [],
               w_depIds = {}, w_newDepIds = {},
               w_expression = (if production en then [] else src), w_getter = fn,
               w_value = Undefined\<rparr>"
  define s3 where "s3 = ?s2\<lparr>uid := ?w, watchers := (watchers ?s2)(?w := W)\<rparr>"
  have p3: "subs s3 = subs s" "uid s3 = Suc (uid s)"
    "\<And>v'. vm_watchers (vms s3 v')
        = (if v' = v then vm_watchers (vms s v) @ [Suc (uid s)] else vm_watchers (vms s v'))"
    by (simp_all add: s3_def)
  have nw: "Suc (uid s) \<notin> set (vm_watchers (vms s v'))" for v'
    using assms by (fastforce simp: ids_fresh_def)
  have f3: "ids_fresh s3"
    using assms nw unfolding ids_fresh_def p3
    by (auto simp: le_Suc_eq)
  have u3: "?w \<le> uid s3" by (simp add: s3_def)
  have fg: "ids_fresh (snd (Watcher_get en ?w s3))"
    by (rule get_keeps_fresh [OF f3 u3])
  have up: "ids_fresh (upd_watcher w f t) = ids_fresh t" for w f t
    by (simp add: ids_fresh_def)
  have new: "Watcher_new en v fn src opts rw s =
     (if (case opts of None \<Rightarrow> False | Some opt \<Rightarrow> opt_lazy opt) then (Ok ?w, s3)
      else (case Watcher_get en ?w s3 of
                 (Threw x, s4) \<Rightarrow> (Threw x, s4)
               | (Unfinished, s4) \<Rightarrow> (Unfinished, s4)
               | (Ok value, s4) \<Rightarrow> (Ok ?w, upd_watcher ?w (\<lambda>W. W\<lparr>w_value := value\<rparr>) s4)))"
    unfolding Watcher_new_def Let_def s3_def W_def by (rule refl)
  obtain r s4 where g: "Watcher_get en ?w s3 = (r, s4)" by (cases "Watcher_get en ?w s3")
  have f4: "ids_fresh s4" using fg g by simp
  show ?thesis
    unfolding new g using f3 f4
    by (cases r) (simp_all add: up)
qed

lemma wf_upd_value [simp]:
  "wf_watcher (upd_watcher w (\<lambda>W. W\<lparr>w_value := x\<rparr>) s) w' = wf_watcher s w'"
  by (simp add: wf_watcher_def)

lemma Watcher_new_wf:
  assumes "ids_fresh s" and "Watcher_new en v fn src opts rw s = (Ok w, s')"
  shows "wf_watcher s' w" and "w_active (watchers s' w)" and "w_vm (watchers s' w) = v"
    and "w \<in> set (vm_watchers (vms s' v))" and "distinct (vm_watchers (vms s' v))"
    and "\<And>w'. w' \<le> uid s \<Longrightarrow> wf_watcher s w' \<Longrightarrow> wf_watcher s' w'"
proof -
  let ?w = "uid s + 1"
  let ?s1 = "if rw then upd_vm v (\<lambda>c. c\<lparr>vm_watcher := Some ?w\<rparr>) s else s"
  let ?s2 = "upd_vm v (\<lambda>c. c\<lparr>vm_watchers := vm_watchers c @ [?w]\<rparr>) ?s1"
  define W where "W = \<lparr>w_vm = v,
               w_deep = (case opts of None \<Rightarrow> False | Some opt \<Rightarrow> opt_deep opt),
               w_user = (case opts of None \<Rightarrow> False | Some opt \<Rightarrow> opt_user opt),
               w_lazy = (case opts of None \<Rightarrow> False | Some opt \<Rightarrow> opt_lazy opt),
               w_sync = (case opts of None \<Rightarrow> False | Some opt \<Rightarrow> opt_sync opt),
               w_before = (case opts of None \<Rightarrow> False | Some opt \<Rightarrow> opt_before opt),
               w_dirty = (case opts of None \<Rightarrow> False | Some opt \<Rightarrow> opt_lazy opt),
               w_active = True, w_deps = [], w_newDeps = [],
               w_depIds = {}, w_newDepIds = {},
               w_expression = (if production en then [] else src), w_getter = fn,
               w_value = Undefined\<rparr>"
  define s3 where "s3 = ?s2\<lparr>uid := ?w, watchers := (watchers ?s2)(?w := W)\<rparr>"
  have new: "Watcher_new en v fn src opts rw s =
     (if (case opts of None \<Rightarrow> False | Some opt \<Rightarrow> opt_lazy opt) then (Ok ?w, s3)
      else (case Watcher_get en ?w s3 of
                 (Threw x, s4) \<Rightarrow> (Threw x, s4)
               | (Unfinished, s4) \<Rightarrow> (Unfinished, s4)
               | (Ok value, s4) \<Rightarrow> (Ok ?w, upd_watcher ?w (\<lambda>W. W\<lparr>w_value := value\<rparr>) s4)))"
    unfolding Watcher_new_def Let_def s3_def W_def by (rule refl)
  have p3: "subs s3 = subs s" "watchers s3 ?w = W" "\<And>w'. w' \<noteq> ?w \<Longrightarrow> watchers s3 w' = watchers s w'"
    "vm_watchers (vms s3 v) = vm_watchers (vms s v) @ [?w]"
    by (simp_all add: s3_def)
  have nsub: "count_list (subs s d) ?w = 0" for d
    using assms(1) by (fastforce simp: ids_fresh_def count_list_0_iff)
  have w3: "watchers s3 (Suc (uid s)) = W" by (simp add: s3_def)
  have wf3: "wf_watcher s3 ?w"
    using nsub by (simp add: wf_watcher_def w3 p3(1) W_def)
  have a3: "w_active (watchers s3 ?w)" "w_vm (watchers s3 ?w) = v"
    "\<not> w_deep (watchers s3 ?w) \<or> (\<exists>x. Ok val = Ok x)" for val :: jsval
    by (simp_all add: w3 W_def)
  have old3: "wf_watcher s3 w'" if "w' \<le> uid s" "wf_watcher s w'" for w'
    using that by (simp add: wf_watcher_def p3)
  have fr: "ids_fresh s'"
    using Watcher_new_fresh [OF assms(1), of en v fn src opts rw] assms(2) by simp
  have res: "w = ?w \<and> wf_watcher s' ?w \<and> w_active (watchers s' ?w) \<and> w_vm (watchers s' ?w) = v
      \<and> vms s' = vms s3 \<and> (\<forall>w'. w' \<le> uid s \<longrightarrow> wf_watcher s w' \<longrightarrow> wf_watcher s' w')"
  proof (cases "case opts of None \<Rightarrow> False | Some opt \<Rightarrow> opt_lazy opt")
    case True
    then have "w = ?w" "s' = s3" using assms(2) unfolding new by simp_all
    then show ?thesis using wf3 a3 old3 by simp
  next
    case False
    obtain r s4 where g: "Watcher_get en ?w s3 = (r, s4)" by (cases "Watcher_get en ?w s3")
    from assms(2) False g obtain val where
      r: "r = Ok val" and w: "w = ?w" and s': "s' = upd_watcher ?w (\<lambda>W. W\<lparr>w_value := val\<rparr>) s4"
      unfolding new by (cases r) auto
    note f = get_frame [OF g]
    have wf4: "wf_watcher s4 ?w"
      using get_keeps_wf [OF wf3 g] r a3(3) by simp
    have old4: "wf_watcher s4 w'" if "w' \<le> uid s" "wf_watcher s w'" for w'
      using get_keeps_wf_other [OF old3 [OF that], of ?w en] that(1) g by simp
    show ?thesis
      using wf4 old4 w a3 f(10) f(13) by (simp add: s' f(1))
  qed
  then show "wf_watcher s' w" "w_active (watchers s' w)" "w_vm (watchers s' w) = v"
    by simp_all
  show "w \<in> set (vm_watchers (vms s' v))" using res p3(4) by simp
  show "distinct (vm_watchers (vms s' v))" using fr by (simp add: ids_fresh_def)
  show "wf_watcher s' w'" if "w' \<le> uid s" "wf_watcher s w'" for w'
    using res that by simp
qed

lemma fold_removeSub_count:
  "w' \<noteq> w \<Longrightarrow>
   count_list (subs (fold (\<lambda>d t. Dep_removeSub d w t) ds s) d) w' = count_list (subs s d) w'"
  by (induction ds arbitrary: s) (auto simp: count_list_remove1_other)

lemma fold_removeSub_set:
  "set (subs (fold (\<lambda>d t. Dep_removeSub d w t) ds s) d) \<subseteq> set (subs s d)"
proof (induction ds arbitrary: s)
  case Nil
  then show ?case by simp
next
  case (Cons a ds)
  have "set (subs (Dep_removeSub a w s) d) \<subseteq> set (subs s d)"
    using set_remove1_subset [of w "subs s a"] by auto
  with Cons [of "Dep_removeSub a w s"] show ?case by auto
qed

text \<open>Tearing a Watcher down leaves the bookkeeping of the others, and the ids, as they were.\<close>

lemma teardown_keeps_wf:
  assumes "wf_watcher s w'" and "w' \<noteq> w"
  shows "wf_watcher (Watcher_teardown w s) w'"
  using assms
  by (simp add: Watcher_teardown_def Let_def wf_watcher_def fold_removeSub_count
      fold_removeSub_other)

lemma fold_removeSub_fresh:
  "ids_fresh t \<Longrightarrow> ids_fresh (fold (\<lambda>d t. Dep_removeSub d w t) ds t)"
proof (induction ds arbitrary: t)
  case Nil
  then show ?case by simp
next
  case (Cons a ds)
  have "ids_fresh (Dep_removeSub a w t)"
    using Cons.prems set_remove1_subset [of w "subs t a"]
    by (auto simp: ids_fresh_def)
  then show ?case using Cons.IH by simp
qed

lemma teardown_keeps_fresh:
  assumes "ids_fresh s"
  shows "ids_fresh (Watcher_teardown w s)"
proof (cases "w_active (watchers s w)")
  case False
  then show ?thesis using assms by (simp add: Watcher_teardown_def)
next
  case True
  define v where "v = w_vm (watchers s w)"
  define s1 where "s1 = (if \<not> vm_isBeingDestroyed (vms s v)
             then upd_vm v (\<lambda>c. c\<lparr>vm_watchers := remove1 w (vm_watchers c)\<rparr>) s else s)"
  have f1: "ids_fresh s1"
    using assms set_remove1_subset [of w "vm_watchers (vms s v)"]
    by (auto simp: ids_fresh_def s1_def)
  have up: "ids_fresh (upd_watcher x f t) = ids_fresh t" for x f t
    by (simp add: ids_fresh_def)
  show ?thesis
    using True fold_removeSub_fresh [OF f1]
    by (simp add: Watcher_teardown_def Let_def up v_def [symmetric] s1_def [symmetric])
qed

text \<open>Observing data leaves them too, when no Dep beyond the counter has a subscriber.\<close>

lemma heap_only_keeps:
  assumes "heap_only s s'" and "\<forall>d. dep_uid s \<le> d \<longrightarrow> subs s d = []"
  shows "subs s' = subs s" and "wf_watcher s' w = wf_watcher s w"
    and "ids_fresh s' = ids_fresh s" and "\<forall>d. dep_uid s' \<le> d \<longrightarrow> subs s' d = []"
proof -
  show a: "subs s' = subs s"
    using assms unfolding heap_only_def by (metis ext)
  show "wf_watcher s' w = wf_watcher s w" "ids_fresh s' = ids_fresh s"
    using assms(1) by (simp_all add: wf_watcher_def ids_fresh_def a heap_only_def)
  show "\<forall>d. dep_uid s' \<le> d \<longrightarrow> subs s' d = []"
    using assms by (simp add: a heap_only_def)
qed

lemma init_fresh: "ids_fresh init" "\<forall>d. dep_uid init \<le> d \<longrightarrow> subs init d = []"
  by (simp_all add: ids_fresh_def init_def no_component_def)

lemma switch_data_fresh: "ids_fresh switch_data"
proof -
  let ?s = "init\<lparr>heap := (heap init)(1 := empty_obj\<lparr>o_props :=
        [(''ok'', Data (Boolean True) True), (''b'', Data (Num 10) True),
         (''c'', Data (Num 20) True)]\<rparr>)\<rparr>"
  have a: "ids_fresh ?s" "\<forall>d. dep_uid ?s \<le> d \<longrightarrow> subs ?s d = []"
    by (simp_all add: ids_fresh_def init_def no_component_def)
  have "heap_only ?s switch_data"
    unfolding switch_data_def by (rule observe_heap_only)
  from heap_only_keeps(3) [OF this a(2)] a(1) show ?thesis by simp
qed

lemma switch_watched_new:
  "Watcher_new dev 0 switch_expr ''ok ? b : c'' None False switch_data = (Ok 1, switch_watched)"
proof -
  have "fst (Watcher_new dev 0 switch_expr ''ok ? b : c'' None False switch_data) = Ok 1"
    by (simp add: switch_data_def switch_expr_def Watcher_new_def exec_defs state_defs
        observe_defs truthy_def)
  then show ?thesis by (simp add: switch_watched_def prod_eq_iff)
qed





subsection \<open>Teardown is idempotent\<close>

text \<open>
  C9, as the code has it: a second \<^verbatim>\<open>teardown()\<close> changes nothing. After the first one the
  Watcher is inactive; it is a subscriber of no Dep, provided its bookkeeping was
  consistent (\<open>wf_watcher\<close>: \<^verbatim>\<open>teardown()\<close> removes it from the Deps in \<^verbatim>\<open>deps\<close> only);
  it is removed from the watcher list of its instance, which lists it once, unless the
  instance is being destroyed, in which case the list is left as it is. \<^verbatim>\<open>run()\<close> of the
  torn-down Watcher returns without evaluating and without invoking the callback. The
  constructor leaves the Watcher it returns as the theorem wants it (\<open>Watcher_new_wf\<close>).
\<close>

theorem teardown_idempotent:
  assumes "wf_watcher s w" and "w_active (watchers s w)"
    and "distinct (vm_watchers (vms s (w_vm (watchers s w))))"
  shows "Watcher_teardown w (Watcher_teardown w s) = Watcher_teardown w s
       \<and> \<not> w_active (watchers (Watcher_teardown w s) w)
       \<and> (\<forall>d. w \<notin> set (subs (Watcher_teardown w s) d))
       \<and> (if vm_isBeingDestroyed (vms s (w_vm (watchers s w)))
          then vms (Watcher_teardown w s) = vms s
          else w \<notin> set (vm_watchers (vms (Watcher_teardown w s) (w_vm (watchers s w)))))
       \<and> Watcher_run en w (Watcher_teardown w s) = (Ok (), emit (Run w) (Watcher_teardown w s))
       \<and> filter is_Callback (trace (snd (Watcher_run en w (Watcher_teardown w s))))
           = filter is_Callback (trace s)"
proof -
  let ?t = "Watcher_teardown w s"
  have d: "distinct (w_deps (watchers s w))"
    using assms(1) by (simp add: wf_watcher_def)
  note td = teardown_active [OF assms(2) d]
  have inactive: "\<not> w_active (watchers ?t w)"
    by (simp add: td)
  have idem: "Watcher_teardown w ?t = ?t"
    using inactive by (rule teardown_inactive)
  have cnt: "count_list (subs ?t d) w = 0" for d
    using assms(1) by (simp add: td wf_watcher_def count_list_remove1)
  have nosub: "\<forall>d. w \<notin> set (subs ?t d)"
    using cnt by (simp add: count_list_0_iff)
  have lst: "if vm_isBeingDestroyed (vms s (w_vm (watchers s w)))
          then vms ?t = vms s
          else w \<notin> set (vm_watchers (vms ?t (w_vm (watchers s w))))"
    using assms(3) by (simp add: td)
  have run: "Watcher_run en w ?t = (Ok (), emit (Run w) ?t)"
    using inactive by (rule run_inactive)
  have cb: "filter is_Callback (trace (snd (Watcher_run en w ?t))) = filter is_Callback (trace s)"
    by (simp add: run td is_Callback_def)
  show ?thesis using idem inactive nosub lst run cb by blast
qed

text \<open>
  The Watcher of \<^verbatim>\<open>ok ? b : c\<close> as the constructor returns it, a subscriber of the Deps 1
  and 2.
\<close>

theorem teardown_idempotent_witness:
  "wf_watcher switch_watched 1 \<and> w_active (watchers switch_watched 1)
   \<and> distinct (vm_watchers (vms switch_watched (w_vm (watchers switch_watched 1))))
   \<and> subs switch_watched 1 = [1] \<and> subs switch_watched 2 = [1]
   \<and> vm_watchers (vms switch_watched 0) = [1]
   \<and> Watcher_teardown 1 (Watcher_teardown 1 switch_watched) = Watcher_teardown 1 switch_watched
   \<and> \<not> w_active (watchers (Watcher_teardown 1 switch_watched) 1)
   \<and> (\<forall>d. 1 \<notin> set (subs (Watcher_teardown 1 switch_watched) d))
   \<and> vm_watchers (vms (Watcher_teardown 1 switch_watched) 0) = []
   \<and> Watcher_run dev 1 (Watcher_teardown 1 switch_watched)
        = (Ok (), emit (Run 1) (Watcher_teardown 1 switch_watched))"
proof -
  note n = Watcher_new_wf [OF switch_data_fresh switch_watched_new]
  have v: "w_vm (watchers switch_watched 1) = 0" by (rule n(3))
  have c: "distinct (vm_watchers (vms switch_watched (w_vm (watchers switch_watched 1))))"
    using n(5) v by simp
  have e: "subs switch_watched 1 = [1]" "subs switch_watched 2 = [1]"
    "vm_watchers (vms switch_watched 0) = [1]"
    "\<not> vm_isBeingDestroyed (vms switch_watched 0)"
    by (simp_all add: switch_watched_def switch_data_def switch_expr_def
      Watcher_new_def exec_defs state_defs observe_defs truthy_def)
  have l: "vm_watchers (vms (Watcher_teardown 1 switch_watched) 0) = []"
    using teardown_active(3) [OF n(2) _] n(1) e(3,4) v
    by (simp add: wf_watcher_def)
  from teardown_idempotent [OF n(1) n(2) c, of dev] n(1) n(2) c e l show ?thesis
    by simp
qed

text \<open>
  As stated, the claim fails where the owning instance is being destroyed: \<^verbatim>\<open>teardown()\<close> then
  skips the removal from the watcher list, and the Watcher is still in it afterwards.
\<close>

theorem teardown_keeps_list_counterexample:
  "w_active (watchers destroying 1) \<and> w_vm (watchers destroying 1) = 0
   \<and> 1 \<in> set (vm_watchers (vms (Watcher_teardown 1 destroying) 0))"
  by (simp add: Watcher_teardown_def destroying_def watching_def init_def no_watcher_def
      no_component_def Let_def)

subsection \<open>Exceptions during dependency collection\<close>

lemma fragile_observed_eval:
  "fst (observe dev (stack_limit dev) (Ref 1) True fragile) = Ok (Some 0)"
  "targetStack fragile_observed = []" "target fragile_observed = None"
  "map_of (o_props (heap fragile_observed 1)) ''o''
     = Some (Reactive \<lparr>c_dep = 1, c_val = Ref 2, c_childOb = Some 2, c_getter = None,
         c_setter = False, c_customSetter = False, c_shallow = False\<rparr>)"
  "map_of (o_props (heap fragile_observed 2)) ''x''
     = Some (Reactive \<lparr>c_dep = 3, c_val = Undefined, c_childOb = None,
         c_getter = Some (Throws (Str ''boom'')), c_setter = False, c_customSetter = False,
         c_shallow = False\<rparr>)"
  by (simp_all add: fragile_observed_def fragile_def state_defs numeral_eq_Suc observable_def
      Observer_init_def Dep_new_def count_root_def defineReactive_prepare_def install_def
      upd_obj_def Let_def)

text \<open>
  Where the traversal of a deep Watcher does not throw, \<^verbatim>\<open>get\<close> pops the target it
  pushed and empties the new generation, whatever the getter did; and a getter that throws
  is reported for a user Watcher and propagates otherwise.
\<close>

lemma get_pops_target:
  assumes "Watcher_get en w s = (r, s')"
    and "\<not> w_deep (watchers s w) \<or> (\<exists>v. r = Ok v)"
  shows "targetStack s' = targetStack s"
    and "w_newDeps (watchers s' w) = []" and "w_newDepIds (watchers s' w) = {}"
proof -
  from get_shape [OF assms(1)] assms(2)
  obtain ds1 ds2 hs s4 where
    s4: "s4 = fold Dep_depend ds2 (fold emit hs (fold Dep_depend ds1
             (emit (Getter w) (pushTarget (Some w) s))))"
    and hs: "concat (map dep_of hs) = []"
    and s': "s' = Watcher_cleanupDeps w (popTarget s4)"
    by auto
  note c = collected [OF s4 hs]
  show "targetStack s' = targetStack s"
    by (simp add: s' cleanupDeps_proj c(2))
  show "w_newDeps (watchers s' w) = []" "w_newDepIds (watchers s' w) = {}"
    by (simp_all add: s' cleanupDeps_proj)
qed

lemma get_throwing_getter:
  assumes "eval en (w_getter (watchers s w)) (emit (Getter w) (pushTarget (Some w) s)) = (Threw x, s2)"
    and "\<not> w_deep (watchers s w)"
  shows "fst (Watcher_get en w s) = (if w_user (watchers s w) then Ok Undefined else Threw x)"
    and "w_user (watchers s w) \<Longrightarrow>
         HandleError x (''getter for watcher '' @ w_expression (watchers s w))
           \<in> set (trace (snd (Watcher_get en w s)))"
proof -
  let ?s1 = "emit (Getter w) (pushTarget (Some w) s)"
  have t1: "target ?s1 = Some w" by simp
  have "reads ?s1 (snd (eval en (w_getter (watchers s w)) ?s1))"
    by (rule reads_eval) simp
  then obtain ds1 where s2: "s2 = fold Dep_depend ds1 ?s1"
    using assms(1) by (auto simp: reads_def)
  have w2: "watchers s2 w = (watchers s w)\<lparr>w_newDepIds := w_newDepIds (watchers s w) \<union> set ds1,
                    w_newDeps := w_newDeps (watchers s w) @ news (w_newDepIds (watchers s w)) ds1\<rparr>"
    unfolding s2 by (simp add: fold_depend_watcher [OF t1])
  show "fst (Watcher_get en w s) = (if w_user (watchers s w) then Ok Undefined else Threw x)"
    using assms by (simp add: Watcher_get_def Let_def w2 handleError_def)
  show "HandleError x (''getter for watcher '' @ w_expression (watchers s w))
           \<in> set (trace (snd (Watcher_get en w s)))" if "w_user (watchers s w)"
    using assms that
    by (simp add: Watcher_get_def Let_def w2 handleError_def cleanupDeps_proj)
qed

text \<open>
  C8 fails on the code for a deep Watcher whose traversal throws: \<^verbatim>\<open>traverse(value)\<close> is
  called inside the \<^verbatim>\<open>finally\<close> block before \<^verbatim>\<open>popTarget()\<close> and
  \<^verbatim>\<open>cleanupDeps()\<close>, so an error thrown while it touches a property (here the getter of
  \<^verbatim>\<open>x\<close>) leaves \<^verbatim>\<open>get\<close> with the Watcher still on the target stack. The constructor of a
  deep user watch of \<^verbatim>\<open>o\<close> throws, and afterwards the Watcher is still the collecting target.
\<close>

theorem deep_traversal_throw_leaves_target:
  "targetStack fragile_observed = []
   \<and> fst (Watcher_new dev 0 (Field (Lit (Ref 1)) ''o'') ''o'' (Some deep_user) False
            fragile_observed) = Threw (Str ''boom'')
   \<and> targetStack (snd (Watcher_new dev 0 (Field (Lit (Ref 1)) ''o'') ''o'' (Some deep_user) False
            fragile_observed)) = [Some 1]
   \<and> target (snd (Watcher_new dev 0 (Field (Lit (Ref 1)) ''o'') ''o'' (Some deep_user) False
            fragile_observed)) = Some 1
   \<and> w_newDeps (watchers (snd (Watcher_new dev 0 (Field (Lit (Ref 1)) ''o'') ''o''
            (Some deep_user) False fragile_observed)) 1) = [1, 2]"
  by (simp add: fragile_observed_def fragile_def state_defs numeral_eq_Suc observable_def
      Observer_init_def Dep_new_def count_root_def defineReactive_prepare_def install_def
      Watcher_new_def deep_user_def exec_defs)

subsection \<open>Lazy Watchers\<close>

lemma is_Getter_simps [simp]:
  "is_Getter (Getter w)" "\<not> is_Getter (Depend d)" "\<not> is_Getter (Notify d)"
  "\<not> is_Getter (Update w)" "\<not> is_Getter (Run w)" "\<not> is_Getter (Before w)"
  "\<not> is_Getter (Callback w v old)" "\<not> is_Getter (HandleError x info)"
  "\<not> is_Getter (Warn msg)" "\<not> is_Getter (Hook r h)" "\<not> is_Getter (Tick n)"
  by (simp_all add: is_Getter_def)

lemma filter_Getter_Depend [simp]: "filter is_Getter (map Depend ds) = []"
  by (induction ds) simp_all

lemma get_trace:
  assumes "Watcher_get en w s = (r, s')"
  shows "\<exists>es. trace s' = trace s @ Getter w # es \<and> filter is_Getter es = []"
proof -
  from get_shape [OF assms]
  obtain ds1 ds2 hs s4 where
    s4: "s4 = fold Dep_depend ds2 (fold emit hs (fold Dep_depend ds1
             (emit (Getter w) (pushTarget (Some w) s))))"
    and hs: "hs = [] \<or> (\<exists>x info. hs = [HandleError x info])"
    and s': "s' = Watcher_cleanupDeps w (popTarget s4) \<or> s' = s4"
    by blast
  have "trace s' = trace s4"
    using s' by (auto simp: cleanupDeps_proj)
  then have "trace s' = trace s @ Getter w # (map Depend ds1 @ hs @ map Depend ds2)"
    by (simp add: s4)
  moreover have "filter is_Getter (map Depend ds1 @ hs @ map Depend ds2) = []"
    using hs by auto
  ultimately show ?thesis by blast
qed

lemma evaluations_get:
  "evaluations s (snd (Watcher_get en w s)) = 1"
proof -
  obtain r s' where g: "Watcher_get en w s = (r, s')" by (cases "Watcher_get en w s")
  from get_trace [OF g] show ?thesis
    by (auto simp: g evaluations_def)
qed

lemma depend_trace:
  "trace (Watcher_depend w s) = trace s @ map Depend (rev (w_deps (watchers s w)))"
  by (simp add: Watcher_depend_def)

lemma depend_watcher_flags:
  "w_dirty (watchers (fold Dep_depend ds s) w) = w_dirty (watchers s w)
   \<and> w_value (watchers (fold Dep_depend ds s) w) = w_value (watchers s w)"
  by (induction ds arbitrary: s) (simp_all add: Dep_depend_watchers)

text \<open>
  C7: for a lazy Watcher, \<^verbatim>\<open>update()\<close> sets the dirty flag and evaluates nothing: the
  cached value stays. Reading the computed property evaluates the getter once when the
  Watcher is dirty and not at all when it is not, whatever happened in between; after a
  read that returns, the dirty flag is clear, and a read of a clean Watcher returns the
  cached value.
\<close>

theorem lazy_watcher_evaluates_once_per_read_after_dirty:
  assumes "w_lazy (watchers s w)"
    and "map_of (vm_computedWatchers (vms s v)) key = Some w"
  shows "fst (Watcher_update en w s) = Ok ()
       \<and> w_dirty (watchers (snd (Watcher_update en w s)) w)
       \<and> w_value (watchers (snd (Watcher_update en w s)) w) = w_value (watchers s w)
       \<and> evaluations s (snd (Watcher_update en w s)) = 0
       \<and> evaluations s (snd (computedGetter en v key s)) = (if w_dirty (watchers s w) then 1 else 0)
       \<and> ((\<exists>x. fst (computedGetter en v key s) = Ok x)
            \<longrightarrow> \<not> w_dirty (watchers (snd (computedGetter en v key s)) w))
       \<and> (\<not> w_dirty (watchers s w)
            \<longrightarrow> fst (computedGetter en v key s) = Ok (w_value (watchers s w)))"
proof -
  have u: "Watcher_update en w s
             = (Ok (), upd_watcher w (\<lambda>W. W\<lparr>w_dirty := True\<rparr>) (emit (Update w) s))"
    using assms(1) by (simp add: Watcher_update_def Let_def)
  have u1: "evaluations s (snd (Watcher_update en w s)) = 0"
    by (simp add: u evaluations_def)
  have clean: "evaluations s (snd (computedGetter en v key s)) = 0
       \<and> \<not> w_dirty (watchers (snd (computedGetter en v key s)) w)
       \<and> fst (computedGetter en v key s) = Ok (w_value (watchers s w))"
    if "\<not> w_dirty (watchers s w)"
    using that assms(2)
    by (simp add: computedGetter_def Let_def Watcher_depend_def evaluations_def
        depend_watcher_flags)
  have dirty: "evaluations s (snd (computedGetter en v key s)) = 1
       \<and> ((\<exists>x. fst (computedGetter en v key s) = Ok x)
            \<longrightarrow> \<not> w_dirty (watchers (snd (computedGetter en v key s)) w))"
    if d: "w_dirty (watchers s w)"
  proof -
    obtain r s1 where g: "Watcher_get en w s = (r, s1)" by (cases "Watcher_get en w s")
    from get_trace [OF g] obtain es where
      tr: "trace s1 = trace s @ Getter w # es" and es: "filter is_Getter es = []" by blast
    show ?thesis
    proof (cases r)
      case (Ok x)
      then show ?thesis
        using d assms(2) g tr es
        by (simp add: computedGetter_def Watcher_evaluate_def Let_def Watcher_depend_def
            evaluations_def depend_watcher_flags)
    next
      case (Threw x)
      then show ?thesis
        using d assms(2) g tr es
        by (simp add: computedGetter_def Watcher_evaluate_def Let_def evaluations_def)
    next
      case Unfinished
      then show ?thesis
        using d assms(2) g tr es
        by (simp add: computedGetter_def Watcher_evaluate_def Let_def evaluations_def)
    qed
  qed
  show ?thesis
    using u1 clean dirty by (auto simp: u)
qed

lemma sum_ready_eval:
  "w_lazy (watchers sum_ready 1)" "w_dirty (watchers sum_ready 1)"
  "map_of (vm_computedWatchers (vms sum_ready 0)) ''sum'' = Some 1"
  "trace sum_ready = []"
  by (simp_all add: sum_ready_def sum_data_def sum_expr_def lazy_opts_def Watcher_new_def
      state_defs exec_defs observe_defs)

theorem lazy_watcher_witness:
  "w_lazy (watchers sum_written 1)
   \<and> map_of (vm_computedWatchers (vms sum_written 0)) ''sum'' = Some 1
   \<and> fst (computedGetter dev 0 ''sum'' sum_ready) = Ok (Num 3)
   \<and> \<not> w_dirty (watchers sum_read 1)
   \<and> w_dirty (watchers sum_written 1)
   \<and> w_value (watchers sum_written 1) = Num 3
   \<and> evaluations sum_read sum_written = 0
   \<and> fst (computedGetter dev 0 ''sum'' sum_written) = Ok (Num 7)
   \<and> evaluations sum_written (snd (computedGetter dev 0 ''sum'' sum_written)) = 1
   \<and> \<not> w_dirty (watchers (snd (computedGetter dev 0 ''sum'' sum_written)) 1)"
proof -
  have a: "w_lazy (watchers sum_written 1)"
    and b: "map_of (vm_computedWatchers (vms sum_written 0)) ''sum'' = Some 1"
    and c: "w_dirty (watchers sum_written 1)" "w_value (watchers sum_written 1) = Num 3"
      "evaluations sum_read sum_written = 0"
      "fst (computedGetter dev 0 ''sum'' sum_written) = Ok (Num 7)"
    by (simp_all add: sum_written_def sum_read_def sum_ready_def sum_data_def sum_expr_def
        lazy_opts_def Watcher_new_def computedGetter_def js_plus_def evaluations_def
        state_defs exec_defs observe_defs write_defs)
  have d: "fst (computedGetter dev 0 ''sum'' sum_ready) = Ok (Num 3)"
    "\<not> w_dirty (watchers sum_read 1)"
    by (simp_all add: sum_read_def sum_ready_def sum_data_def sum_expr_def
        lazy_opts_def Watcher_new_def computedGetter_def js_plus_def
        state_defs exec_defs observe_defs)
  from lazy_watcher_evaluates_once_per_read_after_dirty [OF a b, of dev] a b c d
  show ?thesis by simp
qed

subsection \<open>The scheduler during a flush\<close>



lemma fold_enqueue_append:
  "fold sched_enqueue (xs @ ys) q = fold sched_enqueue ys (fold sched_enqueue xs q)"
  by simp

lemma enqueue_flags [simp]:
  "flushing (sched_enqueue w q) = flushing q" "waiting (sched_enqueue w q) = waiting q"
  "index (sched_enqueue w q) = index q" "circular (sched_enqueue w q) = circular q"
  "activatedChildren (sched_enqueue w q) = activatedChildren q"
  by (simp_all add: sched_enqueue_def)


lemma runs_before_append:
  "runs_before p c (xs @ ys) =
     (if Run p \<in> set xs \<or> Run c \<in> set xs then runs_before p c xs else runs_before p c ys)"
  by (induction xs) auto

lemma runs_before_none: "Run c \<notin> set es \<Longrightarrow> runs_before p c es"
  by (induction es) auto



subsection \<open>Order of a flush\<close>




lemma pending_after_append:
  "pending_after b p (xs @ ys) = pending_after (pending_after b p xs) p ys"
  by (induction xs arbitrary: b) simp_all

lemma pending_after_quiet:
  "Run p \<notin> set ys \<Longrightarrow> pending_after b p ys = (b \<or> Update p \<in> set ys)"
  by (induction ys arbitrary: b) auto

lemma in_order_append:
  "p \<noteq> c \<Longrightarrow>
   in_order b p c (xs @ ys) = (in_order b p c xs \<and> in_order (pending_after b p xs) p c ys)"
  by (induction xs arbitrary: b) auto

lemma in_order_quiet: "Run c \<notin> set ys \<Longrightarrow> in_order b p c ys"
  by (induction ys arbitrary: b) auto











lemma flush_inv_trace:
  assumes "flush_inv p c base bp bc rest s" and "trace s' = trace s @ es"
    and "\<forall>x. Run x \<notin> set es \<and> Update x \<notin> set es" and "p \<noteq> c"
  shows "base \<le> length (trace s')" and "in_order bp p c (drop base (trace s'))"
    and "pending_after bp p (drop base (trace s')) = pending_after bp p (drop base (trace s))"
    and "pending_after bc c (drop base (trace s')) = pending_after bc c (drop base (trace s))"
proof -
  have b: "base \<le> length (trace s)" and io: "in_order bp p c (drop base (trace s))"
    using assms(1) by (simp_all add: flush_inv_def)
  have d: "drop base (trace s') = drop base (trace s) @ es"
    using b by (simp add: assms(2))
  show "base \<le> length (trace s')" using b by (simp add: assms(2))
  show "in_order bp p c (drop base (trace s'))"
    using io assms(3,4) by (simp add: d in_order_append in_order_quiet)
  show "pending_after bp p (drop base (trace s')) = pending_after bp p (drop base (trace s))"
    "pending_after bc c (drop base (trace s')) = pending_after bc c (drop base (trace s))"
    using assms(3) by (simp_all add: d pending_after_append pending_after_quiet)
qed








subsection \<open>Callbacks that write reactive state\<close>



lemma by_updatesI:
  assumes "\<And>x. w_sync (watchers t' x) = w_sync (watchers t x)"
    and "\<And>x. w_lazy (watchers t' x) = w_lazy (watchers t x)"
    and "sched t' = fold sched_enqueue ws (sched t)"
    and "trace t' = trace t @ es" and "\<And>x. Run x \<notin> set es"
    and "\<And>x. Update x \<in> set es \<Longrightarrow> \<not> w_lazy (watchers t x) \<Longrightarrow> x \<in> has (sched t')"
  shows "by_updates t t'"
  unfolding by_updates_def using assms by blast

lemma by_updates_refl [simp]: "by_updates t t"
  by (rule by_updatesI [where ws = "[]" and es = "[]"]) simp_all




















subsection \<open>A Watcher that re-triggers itself\<close>

lemma nth_replicate_snoc: "(replicate i a @ [b]) ! i = b"
  by (simp add: nth_append)

lemma loop_state_iteration:
  "Watcher_run en 1
     (upd_sched (\<lambda>q. q\<lparr>has := has q - {1}\<rparr>) (loop_state x k i (Suc i) c tr))
   = (Ok (), loop_state x (k + 1) i (Suc (Suc i)) c (tr @ runaway_trace k 1))"
  if "cb en = bump_cb p" for en
  using that
  by (simp add: loop_state_def bump_cb_def js_plus_def data_cell_def
      state_defs exec_defs observe_defs write_defs sched_defs
      nth_replicate_snoc replicate_append_same)

lemma loop_state_fields [simp]:
  "index (sched (loop_state x k i m c tr)) = i"
  "queue (sched (loop_state x k i m c tr)) = replicate m 1 @ [2]"
  "has (sched (loop_state x k i m c tr)) = {1, 2}"
  "circular (sched (loop_state x k i m c tr)) 1 = c"
  "trace (loop_state x k i m c tr) = tr"
  "w_before (watchers (loop_state x k i m c tr) 1) = False"
  "loop_warning (loop_state x k i m c tr) 1 = runaway_warning x"
  by (simp_all add: loop_state_def loop_warning_def runaway_warning_def no_watcher_def)

lemma loop_state_upd:
  "upd_sched (\<lambda>q. q\<lparr>index := index q + 1\<rparr>) (loop_state x k i m c tr) = loop_state x k (Suc i) m c tr"
  "upd_sched (\<lambda>q. q\<lparr>circular := (circular q)(1 := circular q 1 + 1)\<rparr>) (loop_state x k i m c tr)
     = loop_state x k i m (Suc c) tr"
  "warn msg (loop_state x k i m c tr) = loop_state x k i m c (tr @ [Warn msg])"
  by (simp_all add: loop_state_def upd_sched_def warn_def emit_def)

lemma runaway_trace_append:
  "runaway_trace k (a + b) = runaway_trace k a @ runaway_trace (k + int a) b"
  by (induction a arbitrary: k) (simp_all add: algebra_simps)

lemma dev_iteration:
  assumes "cb en = bump_cb p" and "\<not> production en"
  shows "flush_loop en (Suc n) (loop_state x k i (Suc i) c tr) =
     (if 100 \<le> c
      then (Ok (), loop_state x (k + 1) i (Suc (Suc i)) (Suc c)
                     (tr @ runaway_trace k 1 @ [Warn (runaway_warning x)]))
      else flush_loop en n (loop_state x (k + 1) (Suc i) (Suc (Suc i)) (Suc c)
                     (tr @ runaway_trace k 1)))"
proof -
  have w: "(replicate (Suc i) (Suc 0) @ [2]) ! i = Suc 0"
    by (simp add: nth_append del: replicate_Suc)
  have w1: "w_before (watchers (loop_state x k i (Suc i) c tr) (Suc 0)) = False"
    "circular (sched (loop_state x (k + 1) i (Suc (Suc i)) (Suc c) tr')) (Suc 0) = Suc c"
    "loop_warning (loop_state x k' i' m' c' tr') (Suc 0) = runaway_warning x"
    "Suc 0 \<in> has (sched (loop_state x k' i' m' c' tr'))" for k' i' m' c' tr'
    using loop_state_fields [of x k' i' m' c' tr'] loop_state_fields [of x k i "Suc i" c tr]
      loop_state_fields [of x "k + 1" i "Suc (Suc i)" "Suc c" tr']
    by simp_all
  note it = loop_state_iteration [OF assms(1), of x k i c tr, simplified]
  show ?thesis
    using assms(2)
    by (simp add: w w1 it loop_state_upd [simplified] Let_def
        MAX_UPDATE_COUNT_def del: replicate_Suc)
qed


text \<open>
  In a development build the flush that starts with Watcher 1 ahead of Watcher 2 is left
  after the 101st run of Watcher 1, with the warning; in a production build it goes on
  for as long as it is followed.
\<close>

lemma dev_runaway:
  assumes "cb en = bump_cb p" and "\<not> production en"
  shows "c + d = 100 \<Longrightarrow>
     flush_loop en (Suc d + n) (loop_state x k i (Suc i) c tr) =
       (Ok (), loop_state x (k + int d + 1) (i + d) (Suc (Suc (i + d))) 101
                 (tr @ runaway_trace k (Suc d) @ [Warn (runaway_warning x)]))"
proof (induction d arbitrary: k i c tr)
  case 0
  then show ?case
    using dev_iteration [OF assms, of n x k i c tr]
    by (simp del: flush_loop.simps runaway_trace.simps)
next
  case (Suc d)
  have c: "\<not> 100 \<le> c" "Suc c + d = 100" using Suc.prems by simp_all
  have "flush_loop en (Suc (Suc d) + n) (loop_state x k i (Suc i) c tr)
          = flush_loop en (Suc d + n) (loop_state x (k + 1) (Suc i) (Suc (Suc i)) (Suc c)
                     (tr @ runaway_trace k 1))"
    using dev_iteration [OF assms, of "Suc d + n" x k i c tr] c(1)
    by (simp del: flush_loop.simps)
  also have "\<dots> = (Ok (), loop_state x (k + 1 + int d + 1) (Suc i + d) (Suc (Suc (Suc i + d))) 101
                 ((tr @ runaway_trace k 1) @ runaway_trace (k + 1) (Suc d) @ [Warn (runaway_warning x)]))"
    by (rule Suc.IH [OF c(2)])
  also have "\<dots> = (Ok (), loop_state x (k + int (Suc d) + 1) (i + Suc d) (Suc (Suc (i + Suc d))) 101
                 (tr @ runaway_trace k (Suc (Suc d)) @ [Warn (runaway_warning x)]))"
    using runaway_trace_append [of k 1 "Suc d"]
    by (simp add: algebra_simps del: runaway_trace.simps)
  finally show ?case .
qed



lemma flush_start:
  "upd_sched (\<lambda>q. q\<lparr>index := 0\<rparr>) (upd_sched (\<lambda>q. q\<lparr>queue := sort (queue q)\<rparr>)
     (upd_sched (\<lambda>q. q\<lparr>flushing := True\<rparr>)
       (upd_tick (\<lambda>t. t\<lparr>pending := False, callbacks := []\<rparr>)
         (upd_tick (\<lambda>t. t\<lparr>microtasks := microtasks t - 1\<rparr>) (counter_written runaway)))))
   = loop_state ''n'' 1 0 (Suc 0) 0
       [Getter 1, Depend 1, Getter 2, Depend 1, Notify 1, Update 1, Update 2]"
  by (simp add: counter_written_def counter_watched_def counter_data_def runaway_def
      bump_cb_def user_opts_def Watcher_new_def js_plus_def loop_state_def data_cell_def
      state_defs exec_defs observe_defs write_defs sched_defs fun_eq_iff insert_commute)



lemma counter_written_tick:
  "callbacks (tick (counter_written runaway)) = [FlushSchedulerQueue]" "microtasks (tick (counter_written runaway)) = 1"
  "trace (counter_written runaway) = [Getter 1, Depend 1, Getter 2, Depend 1, Notify 1, Update 1, Update 2]"
  by (simp_all add: counter_written_def counter_watched_def counter_data_def runaway_def
      bump_cb_def user_opts_def Watcher_new_def js_plus_def data_cell_def
      state_defs exec_defs observe_defs write_defs sched_defs)

lemma hooks_unmounted:
  "(\<And>v. \<not> vm_isMounted (vms s v)) \<Longrightarrow> callUpdatedHooks q s = s"
proof -
  assume a: "\<And>v. \<not> vm_isMounted (vms s v)"
  have "fold (\<lambda>w t. let v = w_vm (watchers t w)
                  in if vm_watcher (vms t v) = Some w \<and> vm_isMounted (vms t v)
                        \<and> \<not> vm_isDestroyed (vms t v)
                     then emit (Hook v ''updated'') t else t) xs s = s" for xs
    using a by (induction xs) (simp_all add: Let_def)
  then show ?thesis by (simp add: callUpdatedHooks_def)
qed

lemma loop_state_vms [simp]:
  "\<not> vm_isMounted (vms (loop_state x k i m c tr) v)"
  "activatedChildren (sched (loop_state x k i m c tr)) = []"
  by (simp_all add: loop_state_def no_component_def)

lemma reset_proj [simp]:
  "vms (resetSchedulerState en s) = vms s" "trace (resetSchedulerState en s) = trace s"
  "queue (sched (resetSchedulerState en s)) = []" "has (sched (resetSchedulerState en s)) = {}"
  "waiting (sched (resetSchedulerState en s)) = False"
  "flushing (sched (resetSchedulerState en s)) = False"
  by (simp_all add: resetSchedulerState_def)

text \<open>
  The whole flush of the development build: the microtask runs Watcher 1 for n = 1, ..., 101,
  reports the loop, and resets the scheduler; Watcher 2, which was pending, is never run.
\<close>

lemma runaway_flush_development:
  "fst (microtask runaway (counter_written runaway)) = Ok ()"
  "drop (length (trace (counter_written runaway))) (trace (snd (microtask runaway (counter_written runaway))))
     = runaway_trace 1 101 @ [Warn (runaway_warning ''n'')]"
  "queue (sched (snd (microtask runaway (counter_written runaway)))) = []"
  "has (sched (snd (microtask runaway (counter_written runaway)))) = {}"
proof -
  let ?tr0 = "[Getter 1, Depend 1, Getter 2, Depend 1, Notify 1, Update 1, Update 2]"
  have en: "cb runaway = bump_cb False" "\<not> production runaway"
    by (simp_all add: runaway_def dev_def)
  have bud: "flush_budget runaway = Suc 100 + 899"
    by (simp add: runaway_def dev_def)
  have lp: "flush_loop runaway (Suc 100 + 899) (loop_state ''n'' 1 0 (Suc 0) 0 ?tr0)
      = (Ok (), loop_state ''n'' (1 + int 100 + 1) (0 + 100) (Suc (Suc (0 + 100))) 101
                 (?tr0 @ runaway_trace 1 (Suc 100) @ [Warn (runaway_warning ''n'')]))"
    by (rule dev_runaway [OF en]) simp
  let ?fin = "loop_state ''n'' (1 + int 100 + 1) (0 + 100) (Suc (Suc (0 + 100))) 101
                 (?tr0 @ runaway_trace 1 (Suc 100) @ [Warn (runaway_warning ''n'')])"
  have hk: "callUpdatedHooks q (resetSchedulerState runaway ?fin) = resetSchedulerState runaway ?fin"
    for q
    by (rule hooks_unmounted) simp
  have fl: "flushSchedulerQueue runaway
       (upd_tick (\<lambda>t. t\<lparr>pending := False, callbacks := []\<rparr>)
         (upd_tick (\<lambda>t. t\<lparr>microtasks := microtasks t - 1\<rparr>) (counter_written runaway)))
     = (Ok (), resetSchedulerState runaway ?fin)"
    unfolding flushSchedulerQueue_def Let_def flush_start bud
    by (simp only: lp prod.case res.case loop_state_vms callActivatedHooks_def
        fold_simps hk)
  have mt: "microtask runaway (counter_written runaway) = (Ok (), resetSchedulerState runaway ?fin)"
    by (simp add: microtask_def flushCallbacks_def counter_written_tick fl [unfolded One_nat_def]
        del: runaway_trace.simps)
  show "fst (microtask runaway (counter_written runaway)) = Ok ()"
    "drop (length (trace (counter_written runaway))) (trace (snd (microtask runaway (counter_written runaway))))
     = runaway_trace 1 101 @ [Warn (runaway_warning ''n'')]"
    "queue (sched (snd (microtask runaway (counter_written runaway)))) = []"
    "has (sched (snd (microtask runaway (counter_written runaway)))) = {}"
    by (simp_all add: mt counter_written_tick eval_nat_numeral(3) [symmetric]
        del: runaway_trace.simps)
qed





subsection \<open>Array methods\<close>

lemma shape_kept_refl [simp]: "shape_kept s s"
  by (simp add: shape_kept_def)


lemma shape_kept_Dep_new [simp]: "shape_kept s (snd (Dep_new s))"
  by (simp add: shape_kept_def Dep_new_def)

lemma shape_kept_Observer_init [simp]: "shape_kept s (snd (Observer_init r s))"
  by (simp add: shape_kept_def Observer_init_def Dep_new_def Let_def)














end
